theory Spec2Isabelle
  imports Complex_Main "HOL-Library.Multiset"
begin

section \<open>Python strings and sequences\<close>

text \<open>
  A Python \<open>str\<close> is modelled as a \<open>string\<close> (a list of characters). A \<open>char\<close> is
  a code point in the range 0..255, so the model covers Latin-1 text; the functions below
  follow the behaviour of the Python built-ins on that range.
\<close>

definition isspace :: "char \<Rightarrow> bool" where
  \<comment> \<open>\<open>str.isspace\<close> on one character: TAB..CR, FS..US, SPACE, NEL, NBSP\<close>
  "isspace c = (let n = (of_char c :: nat) in
     (9 \<le> n \<and> n \<le> 13) \<or> (28 \<le> n \<and> n \<le> 32) \<or> n = 133 \<or> n = 160)"

definition isdigit :: "char \<Rightarrow> bool" where
  \<comment> \<open>the characters matched by the regular expression \<open>\d\<close>\<close>
  "isdigit c = (let n = (of_char c :: nat) in 48 \<le> n \<and> n \<le> 57)"

definition lower_char :: "char \<Rightarrow> char" where
  "lower_char c = (let n = (of_char c :: nat) in
     if (65 \<le> n \<and> n \<le> 90) \<or> (192 \<le> n \<and> n \<le> 222 \<and> n \<noteq> 215)
     then char_of (n + 32) else c)"

definition lower :: "string \<Rightarrow> string" where
  "lower s = map lower_char s"

definition strip :: "string \<Rightarrow> string" where
  "strip s = rev (dropWhile isspace (rev (dropWhile isspace s)))"

fun split_scan :: "string \<Rightarrow> string \<Rightarrow> string list" where
  \<comment> \<open>\<open>str.split()\<close> without separator: maximal runs of non-whitespace characters;
      the first argument is the word being read\<close>
  "split_scan cur [] = (if cur = [] then [] else [cur])"
| "split_scan cur (c # cs) =
     (if isspace c then (if cur = [] then split_scan [] cs else cur # split_scan [] cs)
      else split_scan (cur @ [c]) cs)"

definition split :: "string \<Rightarrow> string list" where
  "split s = split_scan [] s"

function split_on :: "string \<Rightarrow> string \<Rightarrow> string \<Rightarrow> string list" where
  \<comment> \<open>\<open>str.split(sep)\<close> for a non-empty separator, scanning from the left; the second
      argument is the piece being read\<close>
  "split_on sep cur [] = [cur]"
| "split_on sep cur (c # cs) =
     (if sep \<noteq> [] \<and> take (length sep) (c # cs) = sep
      then cur # split_on sep [] (drop (length sep) (c # cs))
      else split_on sep (cur @ [c]) cs)"
  by pat_completeness auto
termination
  by (relation "measure (\<lambda>(sep, cur, s). length s)") auto

fun join :: "string \<Rightarrow> string list \<Rightarrow> string" where
  \<comment> \<open>\<open>sep.join(xs)\<close>\<close>
  "join sep [] = []"
| "join sep [x] = x"
| "join sep (x # y # ys) = x @ sep @ join sep (y # ys)"

definition py_clamp_index :: "int \<Rightarrow> nat \<Rightarrow> nat" where
  \<comment> \<open>how slicing and \<open>rfind\<close> read a bound: a negative bound counts from the end,
      and the result is clipped to \<open>0..n\<close>\<close>
  "py_clamp_index i n =
     (if i < 0 then (if i + int n < 0 then 0 else nat (i + int n))
      else (if int n < i then n else nat i))"

definition py_slice :: "'a list \<Rightarrow> int \<Rightarrow> int \<Rightarrow> 'a list" where
  \<comment> \<open>\<open>xs[i:j]\<close>\<close>
  "py_slice xs i j =
     (let a = py_clamp_index i (length xs); b = py_clamp_index j (length xs)
      in take (b - a) (drop a xs))"

fun last_index :: "'a \<Rightarrow> 'a list \<Rightarrow> nat option" where
  "last_index c [] = None"
| "last_index c (x # xs) =
     (case last_index c xs of
        Some k \<Rightarrow> Some (Suc k)
      | None \<Rightarrow> (if x = c then Some 0 else None))"

definition py_rfind :: "string \<Rightarrow> char \<Rightarrow> int \<Rightarrow> int \<Rightarrow> int" where
  \<comment> \<open>\<open>s.rfind(c, i, j)\<close> for a one-character \<open>c\<close>: the highest index in \<open>s[i:j]\<close>
      holding \<open>c\<close>, or \<open>-1\<close>\<close>
  "py_rfind s c i j =
     (let a = py_clamp_index i (length s); b = py_clamp_index j (length s)
      in case last_index c (take (b - a) (drop a s)) of
           None \<Rightarrow> - 1
         | Some k \<Rightarrow> int (a + k))"

definition digit_char :: "nat \<Rightarrow> char" where
  "digit_char d = char_of (48 + d)"

function str_nat :: "nat \<Rightarrow> string" where
  \<comment> \<open>\<open>str(n)\<close> for a non-negative integer\<close>
  "str_nat n = (if n < 10 then [digit_char n] else str_nat (n div 10) @ [digit_char (n mod 10)])"
  by pat_completeness auto
termination
  by (relation "measure id") auto

declare str_nat.simps [simp del]

section \<open>Chunker (ingestion/chunking.py)\<close>

datatype py_error = ValueError string

record chunk_metadata =
  md_document_id :: string
  md_source :: string
  chunk_index :: nat
  start_position :: "int option"
  end_position :: "int option"
  word_count :: "nat option"

record text_chunk =
  content :: string
  metadata :: chunk_metadata
  chunk_id :: string
  source :: string

subsection \<open>\<open>DocumentChunker.chunk_text\<close>\<close>

definition window_end :: "string \<Rightarrow> int \<Rightarrow> int \<Rightarrow> int" where
  \<comment> \<open>lines 53-63: the end of the window starting at \<open>start\<close>\<close>
  "window_end text chunk_size start =
     (let end0 = min (start + chunk_size) (int (length text))
      in if end0 < int (length text) then
           (let last_period = py_rfind text (CHR ''.'') start end0;
                last_newline = py_rfind text (CHR 0x0A) start end0;
                last_boundary = max last_period last_newline
            in if last_boundary > start then last_boundary + 1 else end0)
         else end0)"

definition fixed_chunk :: "string \<Rightarrow> string \<Rightarrow> nat \<Rightarrow> int \<Rightarrow> int \<Rightarrow> string \<Rightarrow> text_chunk" where
  \<comment> \<open>lines 68-79\<close>
  "fixed_chunk document_id src chunk_counter start endp chunk_content =
     \<lparr> content = chunk_content,
       metadata = \<lparr> md_document_id = document_id, md_source = src,
                    chunk_index = chunk_counter,
                    start_position = Some start, end_position = Some endp,
                    word_count = None \<rparr>,
       chunk_id = document_id @ ''_chunk_'' @ str_nat chunk_counter,
       source = src \<rparr>"

text \<open>
  The \<open>while\<close> loop of lines 51-84. Nothing in the source bounds the number of
  iterations, so the loop is a partial function: \<open>None\<close> is a run that never leaves
  the loop.
\<close>

partial_function (option) chunk_loop ::
  "string \<Rightarrow> int \<Rightarrow> int \<Rightarrow> string \<Rightarrow> string \<Rightarrow> int \<Rightarrow> nat \<Rightarrow> text_chunk list
     \<Rightarrow> text_chunk list option" where
  "chunk_loop text chunk_size chunk_overlap document_id src start chunk_counter chunks =
     (if start < int (length text) then
        (let endp = window_end text chunk_size start;
             chunk_content = strip (py_slice text start endp)
         in if chunk_content \<noteq> [] then
              chunk_loop text chunk_size chunk_overlap document_id src (endp - chunk_overlap)
                (chunk_counter + 1)
                (chunks @ [fixed_chunk document_id src chunk_counter start endp chunk_content])
            else
              chunk_loop text chunk_size chunk_overlap document_id src (endp - chunk_overlap)
                chunk_counter chunks)
      else Some chunks)"

declare chunk_loop.simps [code]

definition chunk_text ::
  "string \<Rightarrow> int \<Rightarrow> int \<Rightarrow> string \<Rightarrow> string \<Rightarrow> (py_error + text_chunk list) option" where
  "chunk_text text chunk_size chunk_overlap document_id src =
     (if chunk_overlap \<ge> chunk_size
      then Some (Inl (ValueError ''chunk_overlap must be less than chunk_size''))
      else map_option Inr (chunk_loop text chunk_size chunk_overlap document_id src 0 0 []))"

subsection \<open>\<open>DocumentChunker.chunk_by_sections\<close>\<close>

definition section_chunk :: "string \<Rightarrow> string \<Rightarrow> nat \<Rightarrow> string \<Rightarrow> text_chunk" where
  "section_chunk document_id src idx para =
     \<lparr> content = para,
       metadata = \<lparr> md_document_id = document_id, md_source = src, chunk_index = idx,
                    start_position = None, end_position = None, word_count = None \<rparr>,
       chunk_id = document_id @ ''_section_'' @ str_nat idx,
       source = src \<rparr>"

fun sections_loop :: "string \<Rightarrow> string \<Rightarrow> nat \<Rightarrow> string list \<Rightarrow> text_chunk list" where
  \<comment> \<open>the \<open>for idx, para in enumerate(paragraphs)\<close> loop, \<open>idx\<close> being the position
      of the head of the remaining paragraphs\<close>
  "sections_loop document_id src idx [] = []"
| "sections_loop document_id src idx (p # ps) =
     (let para = strip p
      in if para \<noteq> [] then
           section_chunk document_id src idx para # sections_loop document_id src (idx + 1) ps
         else sections_loop document_id src (idx + 1) ps)"

definition chunk_by_sections :: "string \<Rightarrow> string \<Rightarrow> string \<Rightarrow> text_chunk list" where
  "chunk_by_sections text document_id src =
     (let paragraphs = split_on [CHR 0x0A, CHR 0x0A] [] text
      in sections_loop document_id src 0 paragraphs)"

subsection \<open>\<open>DocumentChunker.chunk_by_tokens\<close>\<close>

definition token_chunk :: "string \<Rightarrow> string \<Rightarrow> nat \<Rightarrow> string list \<Rightarrow> string \<Rightarrow> text_chunk" where
  "token_chunk document_id src chunk_counter chunk_words chunk_content =
     \<lparr> content = chunk_content,
       metadata = \<lparr> md_document_id = document_id, md_source = src,
                    chunk_index = chunk_counter,
                    start_position = None, end_position = None,
                    word_count = Some (length chunk_words) \<rparr>,
       chunk_id = document_id @ ''_token_chunk_'' @ str_nat chunk_counter,
       source = src \<rparr>"

definition tokens_reached :: "nat \<Rightarrow> int \<Rightarrow> bool" where
  \<comment> \<open>\<open>len(chunk_words) >= max_tokens / 1.3\<close>, the quotient taken in the reals\<close>
  "tokens_reached n max_tokens = (real n \<ge> real_of_int max_tokens / (13 / 10))"

fun tokens_loop ::
  "int \<Rightarrow> string \<Rightarrow> string \<Rightarrow> string list \<Rightarrow> string list \<Rightarrow> nat \<Rightarrow> text_chunk list
     \<Rightarrow> text_chunk list \<times> string list \<times> nat" where
  \<comment> \<open>the \<open>for word in words\<close> loop over the state
      \<open>(chunks, chunk_words, chunk_counter)\<close>\<close>
  "tokens_loop max_tokens document_id src [] chunk_words chunk_counter chunks =
     (chunks, chunk_words, chunk_counter)"
| "tokens_loop max_tokens document_id src (word # ws) chunk_words chunk_counter chunks =
     (let chunk_words' = chunk_words @ [word]
      in if tokens_reached (length chunk_words') max_tokens then
           (let chunk_content = strip (join '' '' chunk_words')
            in if chunk_content \<noteq> [] then
                 tokens_loop max_tokens document_id src ws [] (chunk_counter + 1)
                   (chunks @ [token_chunk document_id src chunk_counter chunk_words' chunk_content])
               else tokens_loop max_tokens document_id src ws [] chunk_counter chunks)
         else tokens_loop max_tokens document_id src ws chunk_words' chunk_counter chunks)"

definition chunk_by_tokens :: "string \<Rightarrow> int \<Rightarrow> string \<Rightarrow> string \<Rightarrow> text_chunk list" where
  "chunk_by_tokens text max_tokens document_id src =
     (case tokens_loop max_tokens document_id src (split text) [] 0 [] of
        (chunks, chunk_words, chunk_counter) \<Rightarrow>
          if chunk_words \<noteq> [] then
            chunks @ [token_chunk document_id src chunk_counter chunk_words
                        (strip (join '' '' chunk_words))]
          else chunks)"

section \<open>Router (agents/router_agent.py)\<close>

text \<open>
  The keyword tables are regular expressions. The four constructs they use are modelled:
  a literal, the class \<open>\d\<close>, concatenation and alternation. \<open>match_prefix r s\<close>
  lists what is left of \<open>s\<close> after each way of matching \<open>r\<close> at its start, and
  \<open>re_search\<close> tries every start position, as \<open>re.search\<close> does.
\<close>

datatype regex = Lit string | Digit | Cat regex regex | Alt regex regex

fun match_prefix :: "regex \<Rightarrow> string \<Rightarrow> string list" where
  "match_prefix (Lit l) s = (if take (length l) s = l then [drop (length l) s] else [])"
| "match_prefix Digit s = (case s of [] \<Rightarrow> [] | c # cs \<Rightarrow> if isdigit c then [cs] else [])"
| "match_prefix (Cat a b) s = concat (map (match_prefix b) (match_prefix a s))"
| "match_prefix (Alt a b) s = match_prefix a s @ match_prefix b s"

fun re_search :: "regex \<Rightarrow> string \<Rightarrow> bool" where
  "re_search r [] = (match_prefix r [] \<noteq> [])"
| "re_search r (c # cs) = (match_prefix r (c # cs) \<noteq> [] \<or> re_search r cs)"

definition WEB_KEYWORDS :: "regex list" where
  "WEB_KEYWORDS =
     [Lit ''latest'', Lit ''recent'', Cat (Lit ''202'') Digit, Lit ''research'',
      Lit ''report'', Lit ''news'', Lit ''trends'',
      Cat (Lit ''stat'') (Alt (Lit ''e'') (Lit ''istics''))]"

definition INTERNAL_KEYWORDS :: "regex list" where
  "INTERNAL_KEYWORDS =
     [Lit ''our'', Lit ''internal'', Lit ''company'', Lit ''client'', Lit ''confidential'']"

fun any_keyword :: "regex list \<Rightarrow> string \<Rightarrow> bool" where
  \<comment> \<open>the loop \<open>for kw in KEYWORDS: if re.search(kw, q): return True\<close>, then
      \<open>return False\<close>\<close>
  "any_keyword [] q = False"
| "any_keyword (kw # kws) q = (if re_search kw q then True else any_keyword kws q)"

definition looks_like_web_query :: "string \<Rightarrow> bool" where
  "looks_like_web_query query = (let q = lower query in any_keyword WEB_KEYWORDS q)"

definition looks_like_internal_only :: "string \<Rightarrow> bool" where
  "looks_like_internal_only query = (let q = lower query in any_keyword INTERNAL_KEYWORDS q)"

record routing_decision =
  use_documents :: bool
  use_web :: bool
  reason :: string

text \<open>
  The metadata dictionary maps a key to the truth value of what is stored under it;
  \<open>bool(metadata.get("has_uploaded_docs", False))\<close> is \<open>False\<close> for a missing key.
\<close>

definition decide :: "string \<Rightarrow> (string \<rightharpoonup> bool) \<Rightarrow> routing_decision" where
  "decide query md =
     (let has_docs = (case md ''has_uploaded_docs'' of None \<Rightarrow> False | Some b \<Rightarrow> b)
      in if has_docs \<and> looks_like_internal_only query then
           \<lparr> use_documents = True, use_web = False, reason = ''Internal scope detected'' \<rparr>
         else
           (let web_needed = looks_like_web_query query
            in if has_docs \<and> web_needed then
                 \<lparr> use_documents = True, use_web = True,
                   reason = ''Combined: internal + recent/external'' \<rparr>
               else if has_docs \<and> \<not> web_needed then
                 \<lparr> use_documents = True, use_web = False, reason = ''Documents sufficient'' \<rparr>
               else if \<not> has_docs \<and> web_needed then
                 \<lparr> use_documents = False, use_web = True,
                   reason = ''No docs, web search required'' \<rparr>
               else
                 \<lparr> use_documents = has_docs, use_web = True,
                   reason = ''Default to both when uncertain'' \<rparr>))"

section \<open>Fusion (agents/fusion_agent.py)\<close>

text \<open>
  Hits are dictionaries; a record with optional fields holds the keys the code reads,
  \<open>None\<close> standing for a missing key (for \<open>score\<close> also for the value \<open>None\<close>, which
  \<open>d.get('score')\<close> does not tell apart). Scores and confidences are Python floats,
  modelled as reals: products are exact here and rounded to a double in the code. The
  two agree on signs and on the bound \<open>min(1.0, ...)\<close>, but they can rank two
  citations differently where a product rounds (a document score \<open>0.75\<close> gives
  \<open>0.8999999999999999\<close> in the code, below a web confidence \<open>0.9\<close>, and exactly
  \<open>0.9\<close> here). The properties below are therefore about which citations the evidence
  holds, never about their order.
\<close>

record doc_metadata =
  meta_source :: "string option"
  original_path :: "string option"

record doc_hit =
  doc_content :: "string option"
  doc_text :: "string option"
  doc_score :: "real option"
  doc_source :: "string option"
  doc_meta :: "doc_metadata option"

record web_hit =
  web_snippet :: "string option"
  web_title :: "string option"
  web_url :: "string option"
  web_confidence :: "real option"

record citation =
  claim :: string
  source_type :: string
  cit_source :: "string option"
  url :: "string option"
  confidence :: real

record source_priorities =
  document :: real
  internet :: real

definition source_priority :: source_priorities where
  \<comment> \<open>priority weights (documents > web)\<close>
  "source_priority = \<lparr> document = 12 / 10, internet = 1 \<rparr>"

definition normalize_snippet :: "string \<Rightarrow> string" where
  "normalize_snippet t = take 500 (join '' '' (split (strip t)))"

definition make_citation ::
  "string \<Rightarrow> string \<Rightarrow> string option \<Rightarrow> string option \<Rightarrow> real \<Rightarrow> citation" where
  "make_citation clm stype src u conf =
     \<lparr> claim = clm, source_type = stype, cit_source = src, url = u, confidence = conf \<rparr>"

definition truthy :: "string option \<Rightarrow> bool" where
  \<comment> \<open>the truth value of a string or \<open>None\<close>\<close>
  "truthy v = (case v of None \<Rightarrow> False | Some s \<Rightarrow> s \<noteq> [])"

definition py_or :: "string option \<Rightarrow> string option \<Rightarrow> string option" where
  \<comment> \<open>\<open>a or b\<close>\<close>
  "py_or a b = (if truthy a then a else b)"

fun fuse_docs ::
  "doc_hit list \<Rightarrow> citation list \<Rightarrow> string set \<Rightarrow> citation list \<times> string set" where
  \<comment> \<open>lines 55-70, over the state \<open>(merged, seen)\<close>\<close>
  "fuse_docs [] merged seen = (merged, seen)"
| "fuse_docs (d # ds) merged seen =
     (let snippet = normalize_snippet
            (case doc_content d of Some c \<Rightarrow> c
             | None \<Rightarrow> (case doc_text d of Some t \<Rightarrow> t | None \<Rightarrow> []));
          key = take 200 snippet
      in if key \<in> seen then fuse_docs ds merged seen
         else
           (let score = (case doc_score d of None \<Rightarrow> 6 / 10
                         | Some sc \<Rightarrow> if sc = 0 then 6 / 10 else sc);
                src = (case doc_source d of Some s \<Rightarrow> s
                       | None \<Rightarrow>
                          (case doc_meta d of None \<Rightarrow> ''internal''
                           | Some m \<Rightarrow>
                              (case meta_source m of None \<Rightarrow> ''internal'' | Some s \<Rightarrow> s)));
                cit = make_citation snippet ''document'' (Some src)
                        (py_or (case doc_meta d of None \<Rightarrow> None | Some m \<Rightarrow> original_path m)
                           None)
                        (min 1 (score * document source_priority))
            in fuse_docs ds (merged @ [cit]) (insert key seen)))"

fun fuse_web ::
  "web_hit list \<Rightarrow> citation list \<Rightarrow> string set \<Rightarrow> citation list \<times> string set" where
  \<comment> \<open>lines 73-87\<close>
  "fuse_web [] merged seen = (merged, seen)"
| "fuse_web (w # ws) merged seen =
     (let snippet = normalize_snippet
            (case web_snippet w of Some s \<Rightarrow> s
             | None \<Rightarrow> (case web_title w of Some t \<Rightarrow> t | None \<Rightarrow> []));
          key = take 200 snippet
      in if key \<in> seen then fuse_web ws merged seen
         else
           (let score = (case web_confidence w of None \<Rightarrow> 5 / 10 | Some c \<Rightarrow> c);
                cit = make_citation snippet ''internet'' (py_or (web_title w) (web_url w))
                        (web_url w) (min 1 (score * internet source_priority))
            in fuse_web ws (merged @ [cit]) (insert key seen)))"

definition enumerate1 :: "'a list \<Rightarrow> (nat \<times> 'a) list" where
  \<comment> \<open>\<open>enumerate(xs, start=1)\<close>\<close>
  "enumerate1 xs = zip [1..<Suc (length xs)] xs"

definition str_opt :: "string option \<Rightarrow> string" where
  \<comment> \<open>how an f-string prints a string or \<open>None\<close>\<close>
  "str_opt v = (case v of None \<Rightarrow> ''None'' | Some s \<Rightarrow> s)"

definition build_summary_prompt :: "citation list \<Rightarrow> string" where
  "build_summary_prompt cits =
     join [CHR 0x0A]
       ([''Synthesize the following evidence into a concise, grounded answer with inline citations:'']
        @ map (\<lambda>(i, c). ''['' @ str_nat i @ ''] ('' @ source_type c @ '') '' @ take 300 (claim c)
                          @ '' -- source: '' @ str_opt (cit_source c))
              (enumerate1 (take 10 cits))
        @ [CHR 0x0A # ''Provide a short answer (3-5 sentences) and list the sources by number.''])"

record fused_evidence =
  evidence :: "citation list"
  summary_prompt :: string

definition fuse :: "doc_hit list \<Rightarrow> web_hit list \<Rightarrow> fused_evidence" where
  "fuse doc_results web_results =
     (case fuse_docs doc_results [] {} of
        (merged, seen) \<Rightarrow>
          (case fuse_web web_results merged seen of
             (merged, seen) \<Rightarrow>
               (let merged = sort_key (\<lambda>x. - confidence x) merged
                in \<lparr> evidence = merged, summary_prompt = build_summary_prompt merged \<rparr>)))"

section \<open>Answer generation (agents/answer_agent.py)\<close>

record chat_message =
  role :: string
  message :: string

text \<open>
  The language model is a collaborator: a call of \<open>chat\<close> either returns a string
  (\<open>Inr\<close>) or raises an exception (\<open>Inl\<close>, with its message).
\<close>

type_synonym llm = "chat_message list \<Rightarrow> string + string"

record answer_result =
  answer :: string
  citations :: "citation list"
  sources_text :: string

definition format_citations :: "citation list \<Rightarrow> string" where
  "format_citations cits =
     join [CHR 0x0A]
       (map (\<lambda>(i, c).
               (let src = str_opt (py_or (py_or (cit_source c) (url c)) (Some ''unknown''));
                    stype = source_type c
                in ''['' @ str_nat i @ ''] '' @ src @ '' ('' @ stype @ '')''))
            (enumerate1 cits))"

definition answer_messages :: "fused_evidence \<Rightarrow> string \<Rightarrow> chat_message list" where
  \<comment> \<open>lines 38-56: the prompt and the two messages sent to the model\<close>
  "answer_messages fused user_query =
     (let cits = evidence fused;
          prompt_lines =
            [''You are an assistant that must not hallucinate. Answer concisely using only the provided evidence.'',
             ''User question: '' @ user_query,
             ''Evidence:'']
            @ map (\<lambda>(i, c). ''['' @ str_nat i @ ''] '' @ claim c @ '' (source: ''
                              @ str_opt (cit_source c) @ '')'')
                  (enumerate1 (take 15 cits))
            @ [CHR 0x0A # ''Produce a short answer (3-6 sentences) and attach inline numeric citations like [1], [2]. Then list the referenced sources and their metadata.''];
          prompt = join [CHR 0x0A] prompt_lines
      in [\<lparr> role = ''system'',
            message = ''You are a helpful assistant that must cite sources and avoid adding new facts.'' \<rparr>,
          \<lparr> role = ''user'', message = prompt \<rparr>])"

definition generate_answer :: "llm \<Rightarrow> fused_evidence \<Rightarrow> string \<Rightarrow> answer_result" where
  "generate_answer chat fused user_query =
     (let cits = evidence fused
      in case chat (answer_messages fused user_query) of
           Inr resp \<Rightarrow>
             \<lparr> answer = resp, citations = cits, sources_text = format_citations cits \<rparr>
         | Inl e \<Rightarrow>
             (let short = join '' '' (map claim (take 3 cits))
              in \<lparr> answer = short, citations = cits, sources_text = format_citations cits \<rparr>))"

section \<open>Predicates used to state the properties\<close>

definition loop_step_ok ::
  "(int \<Rightarrow> nat \<Rightarrow> text_chunk list \<Rightarrow> bool) \<Rightarrow> string \<Rightarrow> int \<Rightarrow> int \<Rightarrow> string \<Rightarrow> string \<Rightarrow> bool" where
  "loop_step_ok I s chunk_size chunk_overlap document_id src =
     (\<forall>start chunk_counter chunks.
        I start chunk_counter chunks \<and> start < int (length s) \<longrightarrow>
        (let endp = window_end s chunk_size start;
             chunk_content = strip (py_slice s start endp)
         in if chunk_content \<noteq> [] then
              I (endp - chunk_overlap) (chunk_counter + 1)
                (chunks @ [fixed_chunk document_id src chunk_counter start endp chunk_content])
            else I (endp - chunk_overlap) chunk_counter chunks))"

definition chunks_ok :: "nat \<Rightarrow> text_chunk list \<Rightarrow> bool" where
  "chunks_ok k chunks =
     (length chunks = k \<and> map (chunk_index \<circ> metadata) chunks = [0..<k] \<and>
      (\<forall>c \<in> set chunks. content c \<noteq> []))"

definition indexed_from_zero :: "text_chunk list \<Rightarrow> bool" where
  "indexed_from_zero chunks =
     (map (chunk_index \<circ> metadata) chunks = [0..<length chunks] \<and>
      (\<forall>c \<in> set chunks. content c \<noteq> []))"

definition strictly_indexed :: "text_chunk list \<Rightarrow> bool" where
  "strictly_indexed chunks =
     (sorted_wrt (<) (map (chunk_index \<circ> metadata) chunks) \<and>
      (\<forall>c \<in> set chunks. content c \<noteq> []))"

definition solid :: "string \<Rightarrow> bool" where
  "solid w = (w \<noteq> [] \<and> (\<forall>c \<in> set w. \<not> isspace c))"

subsection \<open>Fusion: candidates and deduplication as the specification words them\<close>

text \<open>
  \<open>doc_citation\<close> and \<open>web_citation\<close> are the citations that lines 56-69 and 74-86
  build for one hit. \<open>first_per_key\<close> is the specification's deduplication: of the
  candidates sharing a key, the first in processing order is kept and the later ones are
  dropped. \<open>keep_unseen\<close> is the same walk started with a set of keys already seen.
\<close>

definition doc_raw :: "doc_hit \<Rightarrow> string" where
  "doc_raw d = (case doc_content d of Some c \<Rightarrow> c
                | None \<Rightarrow> (case doc_text d of Some t \<Rightarrow> t | None \<Rightarrow> []))"

definition web_raw :: "web_hit \<Rightarrow> string" where
  "web_raw w = (case web_snippet w of Some s \<Rightarrow> s
                | None \<Rightarrow> (case web_title w of Some t \<Rightarrow> t | None \<Rightarrow> []))"

definition doc_raw_score :: "doc_hit \<Rightarrow> real" where
  "doc_raw_score d = (case doc_score d of None \<Rightarrow> 6 / 10
                      | Some sc \<Rightarrow> if sc = 0 then 6 / 10 else sc)"

definition web_raw_score :: "web_hit \<Rightarrow> real" where
  "web_raw_score w = (case web_confidence w of None \<Rightarrow> 5 / 10 | Some c \<Rightarrow> c)"

definition doc_citation :: "doc_hit \<Rightarrow> citation" where
  "doc_citation d =
     make_citation (normalize_snippet (doc_raw d)) ''document''
       (Some (case doc_source d of Some s \<Rightarrow> s
              | None \<Rightarrow>
                 (case doc_meta d of None \<Rightarrow> ''internal''
                  | Some m \<Rightarrow> (case meta_source m of None \<Rightarrow> ''internal'' | Some s \<Rightarrow> s))))
       (py_or (case doc_meta d of None \<Rightarrow> None | Some m \<Rightarrow> original_path m) None)
       (min 1 (doc_raw_score d * document source_priority))"

definition web_citation :: "web_hit \<Rightarrow> citation" where
  "web_citation w =
     make_citation (normalize_snippet (web_raw w)) ''internet'' (py_or (web_title w) (web_url w))
       (web_url w) (min 1 (web_raw_score w * internet source_priority))"

text \<open>
  The shape of a normalized snippet. \<open>no_space_runs\<close>: no two adjacent whitespace
  characters. \<open>single_spaced\<close>: moreover the only whitespace character is the space and
  the string does not start with one (whitespace runs are collapsed, the front is
  trimmed). \<open>joined_ok\<close>: moreover the string does not end with whitespace.
\<close>

fun no_space_runs :: "string \<Rightarrow> bool" where
  "no_space_runs [] = True"
| "no_space_runs [c] = True"
| "no_space_runs (a # b # cs) = (\<not> (isspace a \<and> isspace b) \<and> no_space_runs (b # cs))"

definition single_spaced :: "string \<Rightarrow> bool" where
  "single_spaced r =
     (no_space_runs r \<and> list_all (\<lambda>c. isspace c = (c = CHR '' '')) r \<and>
      (case r of [] \<Rightarrow> True | c # cs \<Rightarrow> c \<noteq> CHR '' ''))"

definition joined_ok :: "string \<Rightarrow> bool" where
  "joined_ok r = (no_space_runs r \<and> list_all (\<lambda>c. isspace c = (c = CHR '' '')) r \<and>
                  (r \<noteq> [] \<longrightarrow> \<not> isspace (hd r) \<and> \<not> isspace (last r)))"

definition dedup_key :: "citation \<Rightarrow> string" where
  "dedup_key c = take 200 (claim c)"

fun first_per_key :: "citation list \<Rightarrow> citation list" where
  "first_per_key [] = []"
| "first_per_key (c # cs) = c # filter (\<lambda>x. dedup_key x \<noteq> dedup_key c) (first_per_key cs)"

fun keep_unseen :: "string set \<Rightarrow> citation list \<Rightarrow> citation list" where
  "keep_unseen seen [] = []"
| "keep_unseen seen (c # cs) =
     (if dedup_key c \<in> seen then keep_unseen seen cs
      else c # keep_unseen (insert (dedup_key c) seen) cs)"

definition sample_doc_1 :: doc_hit where
  "sample_doc_1 = \<lparr> doc_content = Some ''Alpha   beta '', doc_text = None,
     doc_score = Some (9 / 10), doc_source = Some ''a.txt'', doc_meta = None \<rparr>"

definition sample_doc_2 :: doc_hit where
  "sample_doc_2 = \<lparr> doc_content = Some ''Gamma'', doc_text = None, doc_score = None,
     doc_source = None, doc_meta = None \<rparr>"

definition sample_web :: web_hit where
  "sample_web = \<lparr> web_snippet = Some ''Alpha beta'', web_title = Some ''T'',
     web_url = Some ''http://x'', web_confidence = Some (8 / 10) \<rparr>"

subsection \<open>Answer generation: the source line as the specification words it\<close>

text \<open>
  \<open>source_line i c\<close> is the line \<open>[i] source (sourceType)\<close>; the source shown is
  the citation's source, or its URL when the source is missing or empty, or
  \<open>unknown\<close>. \<open>failing_chat\<close> is a collaborator whose every call raises.
\<close>

definition shown_source :: "citation \<Rightarrow> string" where
  "shown_source c =
     (case cit_source c of
        Some s \<Rightarrow> if s \<noteq> [] then s
                  else (case url c of Some u \<Rightarrow> if u \<noteq> [] then u else ''unknown''
                        | None \<Rightarrow> ''unknown'')
      | None \<Rightarrow> (case url c of Some u \<Rightarrow> if u \<noteq> [] then u else ''unknown''
                 | None \<Rightarrow> ''unknown''))"

definition source_line :: "nat \<Rightarrow> citation \<Rightarrow> string" where
  "source_line i c = ''['' @ str_nat i @ ''] '' @ shown_source c @ '' ('' @ source_type c @ '')''"

definition failing_chat :: llm where
  "failing_chat messages = Inl ''connection refused''"

section \<open>Properties of the chunker\<close>

subsection \<open>The window never ends past the text\<close>

lemma last_index_bound: "last_index c xs = Some k \<Longrightarrow> k < length xs"
  by (induction xs arbitrary: k) (auto split: option.splits if_splits)

lemma py_clamp_index_le: "py_clamp_index i n \<le> n"
  unfolding py_clamp_index_def by auto

lemma py_rfind_lt: "s \<noteq> [] \<Longrightarrow> py_rfind s c i j < int (length s)"
proof -
  assume ne: "s \<noteq> []"
  define a where "a = py_clamp_index i (length s)"
  define b where "b = py_clamp_index j (length s)"
  have ble: "b \<le> length s" unfolding b_def by (rule py_clamp_index_le)
  show ?thesis
  proof (cases "last_index c (take (b - a) (drop a s))")
    case None
    then show ?thesis using ne by (simp add: py_rfind_def Let_def a_def b_def)
  next
    case (Some k)
    from last_index_bound [OF Some] have "k < b - a" by simp
    with ble have "a + k < length s" by arith
    with Some show ?thesis by (simp add: py_rfind_def Let_def a_def b_def)
  qed
qed

lemma window_end_le: "s \<noteq> [] \<Longrightarrow> window_end s chunk_size start \<le> int (length s)"
  using py_rfind_lt [of s "CHR ''.''"] py_rfind_lt [of s "CHR 0x0A"]
  by (auto simp: window_end_def Let_def max_def min_def add1_zle_eq)

subsection \<open>An invariant rule for the loop of \<open>chunk_text\<close>\<close>

lemma chunk_loop_rule:
  assumes ret: "chunk_loop s chunk_size chunk_overlap document_id src start chunk_counter chunks = Some y"
    and init: "I start chunk_counter chunks"
    and step: "loop_step_ok I s chunk_size chunk_overlap document_id src"
  shows "\<exists>start' k'. I start' k' y \<and> \<not> start' < int (length s)"
proof -
  have "\<forall>I. I start chunk_counter chunks \<and> loop_step_ok I s chunk_size chunk_overlap document_id src
          \<longrightarrow> (\<exists>start' k'. I start' k' y \<and> \<not> start' < int (length s))"
  proof (rule chunk_loop.raw_induct
      [where P = "\<lambda>s chunk_size chunk_overlap document_id src start chunk_counter chunks y.
         \<forall>I. I start chunk_counter chunks \<and> loop_step_ok I s chunk_size chunk_overlap document_id src
          \<longrightarrow> (\<exists>start' k'. I start' k' y \<and> \<not> start' < int (length s))", OF _ ret])
    fix lp s chunk_size chunk_overlap document_id src start chunk_counter chunks y
    assume IH: "\<And>s chunk_size chunk_overlap document_id src start chunk_counter chunks y.
           lp s chunk_size chunk_overlap document_id src start chunk_counter chunks = Some y \<Longrightarrow>
           \<forall>I. I start chunk_counter chunks \<and> loop_step_ok I s chunk_size chunk_overlap document_id src
             \<longrightarrow> (\<exists>start' k'. I start' k' y \<and> \<not> start' < int (length s))"
      and body: "(if start < int (length s) then
        (let endp = window_end s chunk_size start;
             chunk_content = strip (py_slice s start endp)
         in if chunk_content \<noteq> [] then
              lp s chunk_size chunk_overlap document_id src (endp - chunk_overlap)
                (chunk_counter + 1)
                (chunks @ [fixed_chunk document_id src chunk_counter start endp chunk_content])
            else
              lp s chunk_size chunk_overlap document_id src (endp - chunk_overlap)
                chunk_counter chunks)
      else Some chunks) = Some y"
    show "\<forall>I. I start chunk_counter chunks \<and> loop_step_ok I s chunk_size chunk_overlap document_id src
             \<longrightarrow> (\<exists>start' k'. I start' k' y \<and> \<not> start' < int (length s))"
    proof (intro allI impI, elim conjE)
      fix I
      assume i: "I start chunk_counter chunks"
        and st: "loop_step_ok I s chunk_size chunk_overlap document_id src"
      show "\<exists>start' k'. I start' k' y \<and> \<not> start' < int (length s)"
      proof (cases "start < int (length s)")
        case False
        with body i show ?thesis by auto
      next
        case True
        define endp where "endp = window_end s chunk_size start"
        define cc where "cc = strip (py_slice s start endp)"
        show ?thesis
        proof (cases "cc = []")
          case True
          with body \<open>start < int (length s)\<close>
          have r: "lp s chunk_size chunk_overlap document_id src (endp - chunk_overlap)
                chunk_counter chunks = Some y"
            by (simp add: Let_def endp_def cc_def)
          from st have "I start chunk_counter chunks \<and> start < int (length s) \<longrightarrow>
            (let endp = window_end s chunk_size start;
                 chunk_content = strip (py_slice s start endp)
             in if chunk_content \<noteq> [] then
                  I (endp - chunk_overlap) (chunk_counter + 1)
                    (chunks @ [fixed_chunk document_id src chunk_counter start endp chunk_content])
                else I (endp - chunk_overlap) chunk_counter chunks)"
            unfolding loop_step_ok_def by (elim allE)
          with i \<open>start < int (length s)\<close> True
          have "I (endp - chunk_overlap) chunk_counter chunks"
            by (simp add: Let_def endp_def cc_def)
          moreover from IH [OF r]
          have "I (endp - chunk_overlap) chunk_counter chunks \<and>
                  loop_step_ok I s chunk_size chunk_overlap document_id src \<longrightarrow>
                (\<exists>start' k'. I start' k' y \<and> \<not> start' < int (length s))"
            by (rule spec)
          ultimately show ?thesis using st by simp
        next
          case False
          with body \<open>start < int (length s)\<close>
          have r: "lp s chunk_size chunk_overlap document_id src (endp - chunk_overlap)
                (chunk_counter + 1)
                (chunks @ [fixed_chunk document_id src chunk_counter start endp cc]) = Some y"
            by (simp add: Let_def endp_def cc_def)
          from st have "I start chunk_counter chunks \<and> start < int (length s) \<longrightarrow>
            (let endp = window_end s chunk_size start;
                 chunk_content = strip (py_slice s start endp)
             in if chunk_content \<noteq> [] then
                  I (endp - chunk_overlap) (chunk_counter + 1)
                    (chunks @ [fixed_chunk document_id src chunk_counter start endp chunk_content])
                else I (endp - chunk_overlap) chunk_counter chunks)"
            unfolding loop_step_ok_def by (elim allE)
          with i \<open>start < int (length s)\<close> False
          have "I (endp - chunk_overlap) (chunk_counter + 1)
                (chunks @ [fixed_chunk document_id src chunk_counter start endp cc])"
            by (simp add: Let_def endp_def cc_def)
          moreover from IH [OF r]
          have "I (endp - chunk_overlap) (chunk_counter + 1)
                  (chunks @ [fixed_chunk document_id src chunk_counter start endp cc]) \<and>
                  loop_step_ok I s chunk_size chunk_overlap document_id src \<longrightarrow>
                (\<exists>start' k'. I start' k' y \<and> \<not> start' < int (length s))"
            by (rule spec)
          ultimately show ?thesis using st by simp
        qed
      qed
    qed
  qed
  then have "I start chunk_counter chunks \<and> loop_step_ok I s chunk_size chunk_overlap document_id src
          \<longrightarrow> (\<exists>start' k'. I start' k' y \<and> \<not> start' < int (length s))"
    by (rule spec)
  with init step show ?thesis by simp
qed

lemma chunk_loop_stuck:
  assumes ret: "chunk_loop s chunk_size chunk_overlap document_id src start chunk_counter chunks = Some y"
    and "0 < chunk_overlap" "s \<noteq> []" "start < int (length s)"
  shows False
proof -
  have "window_end s chunk_size st - chunk_overlap < int (length s)" for st
    using window_end_le [OF \<open>s \<noteq> []\<close>, of chunk_size st] \<open>0 < chunk_overlap\<close> by simp
  then have "loop_step_ok (\<lambda>start k cs. start < int (length s)) s chunk_size chunk_overlap document_id src"
    unfolding loop_step_ok_def by (simp add: Let_def)
  from chunk_loop_rule [where I = "\<lambda>start k cs. start < int (length s)", OF ret _ this] assms
  show False by simp
qed

lemma chunk_text_diverges:
  assumes "s \<noteq> []" "0 < chunk_overlap" "chunk_overlap < chunk_size"
  shows "chunk_text s chunk_size chunk_overlap document_id src = None"
proof (cases "chunk_loop s chunk_size chunk_overlap document_id src 0 0 []")
  case None
  with assms show ?thesis by (simp add: chunk_text_def)
next
  case (Some y)
  from chunk_loop_stuck [OF Some] assms show ?thesis by simp
qed

lemma chunks_ok_snoc:
  "chunks_ok k chunks \<Longrightarrow> content c \<noteq> [] \<Longrightarrow> chunk_index (metadata c) = k \<Longrightarrow>
     chunks_ok (Suc k) (chunks @ [c])"
  by (simp add: chunks_ok_def)

lemma chunk_loop_chunks_ok:
  assumes ret: "chunk_loop s chunk_size chunk_overlap document_id src start k chunks = Some y"
    and init: "chunks_ok k chunks"
  shows "chunks_ok (length y) y"
proof -
  have "loop_step_ok (\<lambda>start k cs. chunks_ok k cs) s chunk_size chunk_overlap document_id src"
    unfolding loop_step_ok_def Let_def
    by (intro allI impI) (simp add: chunks_ok_def fixed_chunk_def)
  from chunk_loop_rule [where I = "\<lambda>start k cs. chunks_ok k cs", OF ret _ this] init
  obtain k' where "chunks_ok k' y" by auto
  then show ?thesis by (simp add: chunks_ok_def)
qed

lemma window_end_gt:
  "0 < chunk_size \<Longrightarrow> start < int (length s) \<Longrightarrow> start < window_end s chunk_size start"
  by (simp add: window_end_def Let_def)

lemma chunk_loop_returns:
  assumes size: "0 < chunk_size" and ov: "chunk_overlap \<le> 0"
  shows "\<exists>y. chunk_loop s chunk_size chunk_overlap document_id src start k chunks = Some y"
proof (induction "nat (int (length s) - start)" arbitrary: start k chunks rule: less_induct)
  case less
  show ?case
  proof (cases "start < int (length s)")
    case False
    then show ?thesis by (subst chunk_loop.simps) simp
  next
    case True
    define endp where "endp = window_end s chunk_size start"
    from window_end_gt [OF size True] ov have "start < endp - chunk_overlap"
      by (simp add: endp_def)
    with True have dec: "nat (int (length s) - (endp - chunk_overlap)) < nat (int (length s) - start)"
      by simp
    show ?thesis
      using less [OF dec] True
      by (subst chunk_loop.simps) (simp add: Let_def endp_def)
  qed
qed

subsection \<open>Claims about \<open>chunk_text\<close>\<close>

text \<open>
  C1. The claim: for every text and every pair with \<open>chunk_overlap < chunk_size\<close> the
  loop of \<open>chunk_text\<close> ends. The code does not do that. The window end never
  exceeds \<open>len(text)\<close>, so after any iteration \<open>start = end - chunk_overlap\<close> is
  below \<open>len(text)\<close> as soon as the overlap is positive, and the loop condition stays
  true (lemma \<open>chunk_text_diverges\<close>: every non-empty text with a positive overlap).
  The theorem is the call made by the repository's own test
  \<open>test_chunk_text_basic\<close>, which expects a list back: the call never returns.
\<close>

theorem chunk_text_test_call_never_returns:
  "chunk_text (concat (replicate 200 ''This is a sentence. '')) 200 20 ''doc1'' ''test'' = None"
  by (rule chunk_text_diverges) (simp_all add: numeral_eq_Suc)

text \<open>
  C2. The claim: for every text and every pair with \<open>chunk_overlap < chunk_size\<close>,
  \<open>chunk_text\<close> produces a list whose chunk indices are \<open>0, 1, ..., n-1\<close> and whose
  contents are non-empty. For a non-empty text and a positive overlap the code produces
  no list at all, by the defect of C1 (lemma \<open>chunk_text_diverges\<close>): the theorem is a
  call with the function's default parameters, \<open>chunk_size = 1024\<close> and
  \<open>chunk_overlap = 200\<close>.
\<close>

theorem chunk_text_default_call_no_list:
  "chunk_text ''One. Two.'' 1024 200 ''doc1'' ''notes.txt'' = None \<and>
   \<not> (\<exists>chunks. chunk_text ''One. Two.'' 1024 200 ''doc1'' ''notes.txt'' = Some (Inr chunks))"
proof -
  have "chunk_text ''One. Two.'' 1024 200 ''doc1'' ''notes.txt'' = None"
    by (rule chunk_text_diverges) simp_all
  then show ?thesis by simp
qed

text \<open>
  What the loop does guarantee: every list it returns is numbered \<open>0, 1, ..., n-1\<close>
  with non-empty contents, and with a positive chunk size and overlap \<open>0\<close> it returns
  a list for every text.
\<close>

lemma chunk_text_returned_list_indexed:
  "chunk_text s chunk_size chunk_overlap document_id src = Some (Inr chunks)
     \<Longrightarrow> indexed_from_zero chunks"
proof -
  assume "chunk_text s chunk_size chunk_overlap document_id src = Some (Inr chunks)"
  then have "chunk_loop s chunk_size chunk_overlap document_id src 0 0 [] = Some chunks"
    by (auto simp: chunk_text_def split: if_splits)
  from chunk_loop_chunks_ok [OF this] show "indexed_from_zero chunks"
    by (simp add: chunks_ok_def indexed_from_zero_def)
qed

lemma chunk_text_zero_overlap_returns:
  "0 < chunk_size \<Longrightarrow> \<exists>chunks. chunk_text s chunk_size 0 document_id src = Some (Inr chunks)"
  using chunk_loop_returns [of chunk_size 0 s document_id src 0 0 "[]"]
  by (auto simp: chunk_text_def)

text \<open>
  C10. \<open>chunk_text\<close> raises its parameter error (a \<open>ValueError\<close> in the code) exactly
  when \<open>chunk_overlap >= chunk_size\<close>; the error is the whole result, so no chunk is
  produced, and with \<open>chunk_overlap < chunk_size\<close> no error is the result.
\<close>

theorem chunk_text_error_iff:
  "(chunk_text s chunk_size chunk_overlap document_id src =
      Some (Inl (ValueError ''chunk_overlap must be less than chunk_size'')))
     = (chunk_size \<le> chunk_overlap) \<and>
   (\<forall>e. chunk_text s chunk_size chunk_overlap document_id src = Some (Inl e)
      \<longrightarrow> chunk_size \<le> chunk_overlap)"
  by (auto simp: chunk_text_def)

theorem chunk_text_error_iff_witness:
  "chunk_text ''some text'' 100 100 ''d'' ''f'' =
     Some (Inl (ValueError ''chunk_overlap must be less than chunk_size'')) \<and>
   chunk_text ''some text'' 100 0 ''d'' ''f'' \<noteq>
     Some (Inl (ValueError ''chunk_overlap must be less than chunk_size''))"
  using chunk_text_error_iff [of "''some text''" 100 100 "''d''" "''f''"]
        chunk_text_error_iff [of "''some text''" 100 0 "''d''" "''f''"]
  by simp

subsection \<open>Section and token chunking\<close>

lemma sections_loop_ge:
  "c \<in> set (sections_loop document_id src idx ps) \<Longrightarrow> idx \<le> chunk_index (metadata c)"
proof (induction ps arbitrary: idx)
  case Nil
  then show ?case by simp
next
  case (Cons p ps)
  from Cons.prems have "c = section_chunk document_id src idx (strip p) \<or>
      c \<in> set (sections_loop document_id src (Suc idx) ps)"
    by (auto simp: Let_def split: if_splits)
  then show ?case
  proof
    assume "c = section_chunk document_id src idx (strip p)"
    then show ?thesis by (simp add: section_chunk_def)
  next
    assume "c \<in> set (sections_loop document_id src (Suc idx) ps)"
    from Cons.IH [OF this] show ?thesis by simp
  qed
qed

lemma sections_loop_strict:
  "strictly_indexed (sections_loop document_id src idx ps)"
proof (induction ps arbitrary: idx)
  case Nil
  show ?case by (simp add: strictly_indexed_def)
next
  case (Cons p ps)
  have "Suc idx \<le> chunk_index (metadata c)"
    if "c \<in> set (sections_loop document_id src (Suc idx) ps)" for c
    using sections_loop_ge [OF that] .
  with Cons [of "Suc idx"] show ?case
    by (auto simp: strictly_indexed_def Let_def section_chunk_def Suc_le_eq)
qed

lemma sections_loop_positions:
  "map (chunk_index \<circ> metadata) (sections_loop document_id src idx ps) =
     map (\<lambda>i. idx + i) (filter (\<lambda>i. strip (ps ! i) \<noteq> []) [0..<length ps])"
proof (induction ps arbitrary: idx)
  case Nil
  show ?case by simp
next
  case (Cons p ps)
  have u: "[0..<length (p # ps)] = 0 # map Suc [0..<length ps]"
    by (simp add: upt_conv_Cons map_Suc_upt del: upt_Suc)
  have IH: "map (chunk_index \<circ> metadata) (sections_loop document_id src (Suc idx) ps) =
     map (\<lambda>i. Suc idx + i) (filter (\<lambda>i. strip (ps ! i) \<noteq> []) [0..<length ps])"
    by (rule Cons)
  show ?case unfolding u using IH
    by (simp add: Let_def section_chunk_def filter_map comp_def del: upt_Suc)
qed

lemma in_dropWhile: "c \<in> set s \<Longrightarrow> \<not> P c \<Longrightarrow> c \<in> set (dropWhile P s)"
  by (induction s) auto

lemma strip_nonempty: "c \<in> set s \<Longrightarrow> \<not> isspace c \<Longrightarrow> strip s \<noteq> []"
proof -
  assume a: "c \<in> set s" "\<not> isspace c"
  then have "c \<in> set (rev (dropWhile isspace s))" by (simp add: in_dropWhile)
  with a have "c \<in> set (dropWhile isspace (rev (dropWhile isspace s)))" by (rule_tac in_dropWhile)
  then have "c \<in> set (strip s)" unfolding strip_def by (simp only: set_rev)
  then show ?thesis by auto
qed

lemma split_scan_solid:
  "\<forall>c \<in> set cur. \<not> isspace c \<Longrightarrow> w \<in> set (split_scan cur s) \<Longrightarrow> solid w"
proof (induction s arbitrary: cur)
  case Nil
  then show ?case by (auto simp: solid_def split: if_splits)
next
  case (Cons a s)
  have e: "\<forall>c \<in> set ([] :: string). \<not> isspace c" by simp
  show ?case
  proof (cases "isspace a")
    case True
    with Cons.prems(2) have "w = cur \<and> cur \<noteq> [] \<or> w \<in> set (split_scan [] s)"
      by (auto split: if_splits)
    then show ?thesis
    proof
      assume "w = cur \<and> cur \<noteq> []"
      with Cons.prems(1) show ?thesis by (simp add: solid_def)
    next
      assume "w \<in> set (split_scan [] s)"
      from Cons.IH [OF e this] show ?thesis .
    qed
  next
    case False
    with Cons.prems(2) have m: "w \<in> set (split_scan (cur @ [a]) s)" by simp
    from False Cons.prems(1) have "\<forall>c \<in> set (cur @ [a]). \<not> isspace c" by simp
    from Cons.IH [OF this m] show ?thesis .
  qed
qed

lemma join_keeps_head: "ws \<noteq> [] \<Longrightarrow> set (hd ws) \<subseteq> set (join sep ws)"
  by (induction sep ws rule: join.induct) auto

lemma join_solid_nonempty:
  assumes "ws \<noteq> []" "\<forall>w \<in> set ws. solid w"
  shows "strip (join sep ws) \<noteq> []"
proof -
  from assms have "solid (hd ws)" by simp
  then obtain c where c: "c \<in> set (hd ws)" "\<not> isspace c"
    by (cases "hd ws") (auto simp: solid_def)
  with join_keeps_head [OF assms(1), of sep] have "c \<in> set (join sep ws)" by auto
  with c show ?thesis using strip_nonempty by blast
qed

lemma tokens_loop_inv:
  assumes "tokens_loop max_tokens document_id src ws cw k chunks = (chunks', cw', k')"
    and "chunks_ok k chunks"
  shows "chunks_ok k' chunks' \<and> set cw' \<subseteq> set cw \<union> set ws"
  using assms
proof (induction ws arbitrary: cw k chunks)
  case Nil
  then show ?case by simp
next
  case (Cons w ws)
  show ?case
  proof (cases "tokens_reached (length (cw @ [w])) max_tokens")
    case False
    with Cons.prems have "tokens_loop max_tokens document_id src ws (cw @ [w]) k chunks = (chunks', cw', k')"
      by (simp add: Let_def)
    from Cons.IH [OF this Cons.prems(2)] show ?thesis by auto
  next
    case True
    show ?thesis
    proof (cases "strip (join '' '' (cw @ [w])) = []")
      case True
      with Cons.prems \<open>tokens_reached (length (cw @ [w])) max_tokens\<close>
      have "tokens_loop max_tokens document_id src ws [] k chunks = (chunks', cw', k')"
        by (simp add: Let_def)
      from Cons.IH [OF this Cons.prems(2)] show ?thesis by auto
    next
      case False
      let ?c = "token_chunk document_id src k (cw @ [w]) (strip (join '' '' (cw @ [w])))"
      from False Cons.prems \<open>tokens_reached (length (cw @ [w])) max_tokens\<close>
      have r: "tokens_loop max_tokens document_id src ws [] (Suc k) (chunks @ [?c]) = (chunks', cw', k')"
        by (simp add: Let_def)
      have "chunks_ok (Suc k) (chunks @ [?c])"
        using Cons.prems(2) False by (intro chunks_ok_snoc) (simp_all add: token_chunk_def)
      from Cons.IH [OF r this] show ?thesis by auto
    qed
  qed
qed

lemma chunk_by_tokens_ok: "indexed_from_zero (chunk_by_tokens s max_tokens document_id src)"
proof -
  obtain chunks cw k where
    r: "tokens_loop max_tokens document_id src (split s) [] 0 [] = (chunks, cw, k)"
    by (cases "tokens_loop max_tokens document_id src (split s) [] 0 []") auto
  have "chunks_ok 0 []" by (simp add: chunks_ok_def)
  from tokens_loop_inv [OF r this] have ok: "chunks_ok k chunks" and sub: "set cw \<subseteq> set (split s)"
    by auto
  show ?thesis
  proof (cases "cw = []")
    case True
    with r ok show ?thesis by (simp add: chunk_by_tokens_def chunks_ok_def indexed_from_zero_def)
  next
    case False
    have "\<forall>w \<in> set cw. solid w"
      using sub split_scan_solid [of "[]" _ s] by (auto simp: split_def)
    from join_solid_nonempty [OF False this]
    have "chunks_ok (Suc k) (chunks @ [token_chunk document_id src k cw (strip (join '' '' cw))])"
      using ok by (intro chunks_ok_snoc) (simp_all add: token_chunk_def)
    with r False show ?thesis
      by (simp add: chunk_by_tokens_def chunks_ok_def indexed_from_zero_def)
  qed
qed

lemma indexed_from_zero_strict: "indexed_from_zero chunks \<Longrightarrow> strictly_indexed chunks"
  by (simp add: indexed_from_zero_def strictly_indexed_def sorted_wrt_upt del: upt_Suc)

text \<open>
  C7, as stated: every strategy numbers its chunks \<open>0, 1, ..., n-1\<close>. This fails for
  \<open>chunk_by_sections\<close>, whose index is the position of the paragraph in the split
  text, blank paragraphs included: the text \<open>a\n\n\n\nb\<close> has the paragraphs
  \<open>a\<close>, the empty string and \<open>b\<close>, and gives the indices 0 and 2.
\<close>

theorem chunk_by_sections_gap:
  "map (chunk_index \<circ> metadata)
     (chunk_by_sections [CHR ''a'', CHR 0x0A, CHR 0x0A, CHR 0x0A, CHR 0x0A, CHR ''b''] ''d'' ''f'')
     = [0, 2] \<and>
   \<not> indexed_from_zero
     (chunk_by_sections [CHR ''a'', CHR 0x0A, CHR 0x0A, CHR 0x0A, CHR 0x0A, CHR ''b''] ''d'' ''f'')"
  by (simp add: indexed_from_zero_def chunk_by_sections_def Let_def section_chunk_def
        strip_def isspace_def)

text \<open>
  C7, amended. In all three strategies the chunk indices of one pass are strictly
  increasing and no content is empty. \<open>chunk_by_sections\<close> gives every chunk the
  position of its paragraph (so blank paragraphs leave gaps); \<open>chunk_by_tokens\<close> and
  every list returned by \<open>chunk_text\<close> are numbered \<open>0, 1, ..., n-1\<close>.
\<close>

theorem chunk_indices_all_strategies:
  "strictly_indexed (chunk_by_sections s document_id src) \<and>
   map (chunk_index \<circ> metadata) (chunk_by_sections s document_id src) =
     filter (\<lambda>i. strip (split_on [CHR 0x0A, CHR 0x0A] [] s ! i) \<noteq> [])
       [0..<length (split_on [CHR 0x0A, CHR 0x0A] [] s)] \<and>
   indexed_from_zero (chunk_by_tokens s max_tokens document_id src) \<and>
   strictly_indexed (chunk_by_tokens s max_tokens document_id src) \<and>
   (\<forall>chunks. chunk_text s chunk_size chunk_overlap document_id src = Some (Inr chunks)
       \<longrightarrow> indexed_from_zero chunks \<and> strictly_indexed chunks)"
proof (intro conjI allI impI)
  show "strictly_indexed (chunk_by_sections s document_id src)"
    by (simp add: chunk_by_sections_def Let_def sections_loop_strict)
  show "map (chunk_index \<circ> metadata) (chunk_by_sections s document_id src) =
     filter (\<lambda>i. strip (split_on [CHR 0x0A, CHR 0x0A] [] s ! i) \<noteq> [])
       [0..<length (split_on [CHR 0x0A, CHR 0x0A] [] s)]"
    by (simp add: chunk_by_sections_def Let_def sections_loop_positions)
  show t: "indexed_from_zero (chunk_by_tokens s max_tokens document_id src)"
    by (rule chunk_by_tokens_ok)
  from t show "strictly_indexed (chunk_by_tokens s max_tokens document_id src)"
    by (rule indexed_from_zero_strict)
next
  fix chunks
  assume "chunk_text s chunk_size chunk_overlap document_id src = Some (Inr chunks)"
  then have "chunk_loop s chunk_size chunk_overlap document_id src 0 0 [] = Some chunks"
    by (auto simp: chunk_text_def split: if_splits)
  from chunk_loop_chunks_ok [OF this] show i: "indexed_from_zero chunks"
    by (simp add: chunks_ok_def indexed_from_zero_def)
  from i show "strictly_indexed chunks" by (rule indexed_from_zero_strict)
qed

theorem chunk_indices_all_strategies_witness:
  "chunk_text ''One. Two.  Three'' 6 0 ''d'' ''f'' =
     Some (Inr [fixed_chunk ''d'' ''f'' 0 0 4 ''One.'', fixed_chunk ''d'' ''f'' 1 4 9 ''Two.'',
                fixed_chunk ''d'' ''f'' 2 9 15 ''Thre'', fixed_chunk ''d'' ''f'' 3 15 16 ''e'']) \<and>
   indexed_from_zero
     [fixed_chunk ''d'' ''f'' 0 0 4 ''One.'', fixed_chunk ''d'' ''f'' 1 4 9 ''Two.'',
      fixed_chunk ''d'' ''f'' 2 9 15 ''Thre'', fixed_chunk ''d'' ''f'' 3 15 16 ''e''] \<and>
   strictly_indexed (chunk_by_sections ''One. Two.  Three'' ''d'' ''f'') \<and>
   indexed_from_zero (chunk_by_tokens ''One. Two.  Three'' 2 ''d'' ''f'')"
proof -
  have e: "chunk_text ''One. Two.  Three'' 6 0 ''d'' ''f'' =
     Some (Inr [fixed_chunk ''d'' ''f'' 0 0 4 ''One.'', fixed_chunk ''d'' ''f'' 1 4 9 ''Two.'',
                fixed_chunk ''d'' ''f'' 2 9 15 ''Thre'', fixed_chunk ''d'' ''f'' 3 15 16 ''e''])"
    by code_simp
  with chunk_indices_all_strategies [of "''One. Two.  Three''" "''d''" "''f''" 2 6 0]
  show ?thesis by simp
qed

section \<open>Properties of the fusion engine\<close>

subsection \<open>The two loops compute the first citation per key\<close>

lemma fuse_docs_eq:
  "fuse_docs ds merged seen =
     (merged @ keep_unseen seen (map doc_citation ds),
      seen \<union> dedup_key ` set (map doc_citation ds))"
proof (induction ds arbitrary: merged seen)
  case Nil
  show ?case by simp
next
  case (Cons d ds)
  have k: "dedup_key (doc_citation d) = take 200 (normalize_snippet (doc_raw d))"
    by (simp add: dedup_key_def doc_citation_def make_citation_def)
  show ?case
  proof (cases "dedup_key (doc_citation d) \<in> seen")
    case True
    then have "take 200 (normalize_snippet (doc_raw d)) \<in> seen" unfolding k .
    then have "fuse_docs (d # ds) merged seen = fuse_docs ds merged seen"
      by (simp add: Let_def doc_raw_def)
    with True show ?thesis by (auto simp: Cons)
  next
    case False
    then have "take 200 (normalize_snippet (doc_raw d)) \<notin> seen" unfolding k .
    then have "fuse_docs (d # ds) merged seen =
        fuse_docs ds (merged @ [doc_citation d]) (insert (take 200 (normalize_snippet (doc_raw d))) seen)"
      by (simp add: Let_def doc_raw_def doc_citation_def doc_raw_score_def)
    then have "fuse_docs (d # ds) merged seen =
        fuse_docs ds (merged @ [doc_citation d]) (insert (dedup_key (doc_citation d)) seen)"
      unfolding k .
    with False show ?thesis by (auto simp: Cons)
  qed
qed

lemma fuse_web_eq:
  "fuse_web ws merged seen =
     (merged @ keep_unseen seen (map web_citation ws),
      seen \<union> dedup_key ` set (map web_citation ws))"
proof (induction ws arbitrary: merged seen)
  case Nil
  show ?case by simp
next
  case (Cons w ws)
  have k: "dedup_key (web_citation w) = take 200 (normalize_snippet (web_raw w))"
    by (simp add: dedup_key_def web_citation_def make_citation_def)
  show ?case
  proof (cases "dedup_key (web_citation w) \<in> seen")
    case True
    then have "take 200 (normalize_snippet (web_raw w)) \<in> seen" unfolding k .
    then have "fuse_web (w # ws) merged seen = fuse_web ws merged seen"
      by (simp add: Let_def web_raw_def)
    with True show ?thesis by (auto simp: Cons)
  next
    case False
    then have "take 200 (normalize_snippet (web_raw w)) \<notin> seen" unfolding k .
    then have "fuse_web (w # ws) merged seen =
        fuse_web ws (merged @ [web_citation w]) (insert (take 200 (normalize_snippet (web_raw w))) seen)"
      by (simp add: Let_def web_raw_def web_citation_def web_raw_score_def)
    then have "fuse_web (w # ws) merged seen =
        fuse_web ws (merged @ [web_citation w]) (insert (dedup_key (web_citation w)) seen)"
      unfolding k .
    with False show ?thesis by (auto simp: Cons)
  qed
qed

lemma keep_unseen_append:
  "keep_unseen seen (xs @ ys) =
     keep_unseen seen xs @ keep_unseen (seen \<union> dedup_key ` set xs) ys"
  by (induction xs arbitrary: seen) (auto simp: insert_absorb)

lemma keep_unseen_filter:
  "keep_unseen seen cs = filter (\<lambda>c. dedup_key c \<notin> seen) (first_per_key cs)"
proof (induction cs arbitrary: seen)
  case Nil
  show ?case by simp
next
  case (Cons c cs)
  show ?case
  proof (cases "dedup_key c \<in> seen")
    case True
    have "filter (\<lambda>x. dedup_key x \<noteq> dedup_key c \<and> dedup_key x \<notin> seen) (first_per_key cs) =
          filter (\<lambda>x. dedup_key x \<notin> seen) (first_per_key cs)"
      by (rule filter_cong) (use True in auto)
    with True show ?thesis by (simp add: Cons)
  next
    case False
    have "filter (\<lambda>x. dedup_key x \<noteq> dedup_key c \<and> dedup_key x \<notin> seen) (first_per_key cs) =
          filter (\<lambda>x. dedup_key x \<notin> insert (dedup_key c) seen) (first_per_key cs)"
      by (rule filter_cong) auto
    with False show ?thesis by (simp add: Cons)
  qed
qed

lemma keep_unseen_empty: "keep_unseen {} cs = first_per_key cs"
  by (simp add: keep_unseen_filter)

lemma fuse_evidence:
  "evidence (fuse docs webs) =
     sort_key (\<lambda>x. - confidence x)
       (first_per_key (map doc_citation docs @ map web_citation webs))"
  by (simp add: fuse_def fuse_docs_eq fuse_web_eq Let_def keep_unseen_append
        flip: keep_unseen_empty)

lemma first_per_key_append:
  "first_per_key (xs @ ys) =
     first_per_key xs @ filter (\<lambda>c. dedup_key c \<notin> dedup_key ` set xs) (first_per_key ys)"
  using keep_unseen_append [of "{}" xs ys]
  by (simp add: keep_unseen_empty keep_unseen_filter)

lemma first_per_key_subset: "set (first_per_key cs) \<subseteq> set cs"
  by (induction cs) auto

lemma first_per_key_keys: "dedup_key ` set (first_per_key cs) = dedup_key ` set cs"
proof (induction cs)
  case Nil
  show ?case by simp
next
  case (Cons c cs)
  have "dedup_key ` set (first_per_key (c # cs)) =
        insert (dedup_key c) (dedup_key ` set (first_per_key cs))"
    by auto
  with Cons show ?case by simp
qed

lemma first_per_key_distinct: "distinct (map dedup_key (first_per_key cs))"
proof (induction cs)
  case Nil
  show ?case by simp
next
  case (Cons c cs)
  then have "distinct (map dedup_key (filter (\<lambda>x. dedup_key x \<noteq> dedup_key c) (first_per_key cs)))"
    by (simp add: distinct_map_filter)
  then show ?case by auto
qed

lemma set_evidence:
  "set (evidence (fuse docs webs)) =
     set (first_per_key (map doc_citation docs @ map web_citation webs))"
  by (simp add: fuse_evidence)

lemma evidence_origin:
  assumes "c \<in> set (evidence (fuse docs webs))"
  shows "c \<in> doc_citation ` set docs \<or> c \<in> web_citation ` set webs"
  using assms first_per_key_subset [of "map doc_citation docs @ map web_citation webs"]
  by (auto simp: set_evidence)

lemma evidence_doc_key:
  assumes c: "c \<in> set (evidence (fuse docs webs))"
    and k: "dedup_key c \<in> dedup_key ` doc_citation ` set docs"
  shows "c \<in> doc_citation ` set docs"
proof -
  from c have "c \<in> set (first_per_key (map doc_citation docs)) \<or>
      dedup_key c \<notin> dedup_key ` set (map doc_citation docs)"
    by (auto simp: set_evidence first_per_key_append)
  with k first_per_key_subset [of "map doc_citation docs"] show ?thesis by auto
qed


lemma doc_citation_fields:
  "source_type (doc_citation d) = ''document''"
  "claim (doc_citation d) = normalize_snippet (doc_raw d)"
  "confidence (doc_citation d) = min 1 (doc_raw_score d * (12 / 10))"
  by (simp_all add: doc_citation_def make_citation_def source_priority_def)

lemma web_citation_fields:
  "source_type (web_citation w) = ''internet''"
  "claim (web_citation w) = normalize_snippet (web_raw w)"
  "confidence (web_citation w) = min 1 (web_raw_score w * 1)"
  by (simp_all add: web_citation_def make_citation_def source_priority_def)

lemma evidence_keys_distinct: "distinct (map dedup_key (evidence (fuse docs webs)))"
proof -
  let ?cs = "first_per_key (map doc_citation docs @ map web_citation webs)"
  have "mset (map dedup_key (sort_key (\<lambda>x. - confidence x) ?cs)) = mset (map dedup_key ?cs)"
    by simp
  then have "distinct (map dedup_key (sort_key (\<lambda>x. - confidence x) ?cs)) =
             distinct (map dedup_key ?cs)"
    by (rule mset_eq_imp_distinct_iff)
  then show ?thesis by (simp add: fuse_evidence first_per_key_distinct)
qed

subsection \<open>The normalized snippet\<close>

lemma isspace_space: "isspace (CHR '' '')"
  by (simp add: isspace_def)

lemma no_space_runs_Cons:
  "no_space_runs (a # r) = ((r \<noteq> [] \<longrightarrow> \<not> (isspace a \<and> isspace (hd r))) \<and> no_space_runs r)"
  by (cases r) auto

lemma no_space_runs_append:
  "no_space_runs (x @ r) =
     (no_space_runs x \<and> no_space_runs r \<and>
      (x \<noteq> [] \<and> r \<noteq> [] \<longrightarrow> \<not> (isspace (last x) \<and> isspace (hd r))))"
proof (induction x)
  case Nil
  show ?case by simp
next
  case (Cons a x)
  show ?case
    by (cases "x = []") (auto simp: no_space_runs_Cons Cons hd_append)
qed

lemma solid_no_space_runs: "\<forall>c \<in> set w. \<not> isspace c \<Longrightarrow> no_space_runs w"
  by (induction w rule: no_space_runs.induct) auto

lemma no_space_runs_take: "no_space_runs r \<Longrightarrow> no_space_runs (take n r)"
proof (induction r arbitrary: n rule: no_space_runs.induct)
  case 1
  show ?case by simp
next
  case (2 c)
  show ?case by (cases n) simp_all
next
  case (3 a b cs)
  show ?case
  proof (cases n)
    case 0
    then show ?thesis by simp
  next
    case (Suc m)
    from 3 have "no_space_runs (take m (b # cs))" by simp
    with 3(2) Suc show ?thesis by (cases m) auto
  qed
qed

lemma solid_joined_ok: "solid w \<Longrightarrow> joined_ok w"
  unfolding solid_def joined_ok_def list_all_iff
  by (auto simp: solid_no_space_runs isspace_space)

lemma join_solid_ok:
  "\<forall>w \<in> set ws. solid w \<Longrightarrow> joined_ok (join '' '' ws)"
proof (induction "'' ''" ws rule: join.induct)
  case 1
  show ?case by (simp add: joined_ok_def)
next
  case (2 x)
  then show ?case by (simp add: solid_joined_ok)
next
  case (3 x y ys)
  from 3 have sx: "solid x" and sy: "solid y" by simp_all
  from 3 have r: "joined_ok (join '' '' (y # ys))" by simp
  from sy have ne: "join '' '' (y # ys) \<noteq> []"
    by (cases ys) (auto simp: solid_def)
  from sx have jx: "joined_ok x" by (rule solid_joined_ok)
  from sx have xne: "x \<noteq> []" by (simp add: solid_def)
  have "joined_ok (x @ CHR '' '' # join '' '' (y # ys))"
    using jx r ne xne unfolding joined_ok_def
    by (simp add: no_space_runs_append no_space_runs_Cons isspace_space)
  then show ?case by simp
qed

lemma joined_ok_strip: "joined_ok r \<Longrightarrow> strip r = r"
proof (cases r)
  case Nil
  then show ?thesis by (simp add: strip_def)
next
  case (Cons a cs)
  assume j: "joined_ok r"
  with Cons have h: "\<not> isspace a" and l: "\<not> isspace (last r)"
    unfolding joined_ok_def by auto
  from h Cons have d: "dropWhile isspace r = r" by simp
  from Cons have "rev r \<noteq> []" by simp
  then obtain b bs where rv: "rev r = b # bs" by (cases "rev r") auto
  with Cons have "b = last r" by (metis hd_rev list.sel(1))
  with l have "dropWhile isspace (b # bs) = b # bs" by simp
  then have "dropWhile isspace (rev r) = rev r" by (simp only: rv)
  then show ?thesis unfolding strip_def d by simp
qed

lemma joined_ok_take_single_spaced: "joined_ok r \<Longrightarrow> single_spaced (take n r)"
proof -
  assume j: "joined_ok r"
  then have a: "no_space_runs (take n r)" by (simp add: joined_ok_def no_space_runs_take)
  from j have "list_all (\<lambda>c. isspace c = (c = CHR '' '')) r" by (simp add: joined_ok_def)
  then have b: "list_all (\<lambda>c. isspace c = (c = CHR '' '')) (take n r)"
    unfolding list_all_iff using set_take_subset [of n r] by blast
  have c: "(case take n r of [] \<Rightarrow> True | c # cs \<Rightarrow> c \<noteq> CHR '' '')"
  proof (cases "take n r")
    case Nil
    then show ?thesis by (simp only: list.case)
  next
    case (Cons c cs)
    then have "r \<noteq> []" "c = hd r" by (cases r; cases n; auto)+
    with j have "\<not> isspace c" by (simp add: joined_ok_def)
    with Cons show ?thesis using isspace_space by auto
  qed
  from a b c show ?thesis by (simp add: single_spaced_def)
qed

lemma split_scan_drop_leading: "split_scan [] (dropWhile isspace s) = split_scan [] s"
  by (induction s) auto

lemma split_scan_all_space:
  "\<forall>c \<in> set tr. isspace c \<Longrightarrow> split_scan cur tr = (if cur = [] then [] else [cur])"
  by (induction tr arbitrary: cur) auto

lemma split_scan_trailing:
  "\<forall>c \<in> set tr. isspace c \<Longrightarrow> split_scan cur (s @ tr) = split_scan cur s"
proof (induction s arbitrary: cur)
  case Nil
  then show ?case by (simp add: split_scan_all_space)
next
  case (Cons a s)
  then show ?case by simp
qed

lemma split_strip: "split (strip t) = split t"
proof -
  let ?d = "dropWhile isspace t"
  have "?d = rev (dropWhile isspace (rev ?d)) @ rev (takeWhile isspace (rev ?d))"
    by (metis rev_append rev_rev_ident takeWhile_dropWhile_id)
  moreover have "\<forall>c \<in> set (rev (takeWhile isspace (rev ?d))). isspace c"
    by (auto dest: set_takeWhileD)
  ultimately have "split_scan [] ?d = split_scan [] (rev (dropWhile isspace (rev ?d)))"
    using split_scan_trailing by metis
  then show ?thesis by (simp add: split_def strip_def split_scan_drop_leading)
qed

lemma split_scan_word:
  "\<forall>c \<in> set w. \<not> isspace c \<Longrightarrow> split_scan cur (w @ s) = split_scan (cur @ w) s"
  by (induction w arbitrary: cur) auto

lemma split_join_solid:
  "\<forall>w \<in> set ws. solid w \<Longrightarrow> split_scan [] (join '' '' ws) = ws"
proof (induction "'' ''" ws rule: join.induct)
  case 1
  show ?case by simp
next
  case (2 x)
  then have "split_scan [] (x @ []) = split_scan ([] @ x) []"
    by (intro split_scan_word) (simp add: solid_def)
  with 2 show ?case by (simp add: solid_def)
next
  case (3 x y ys)
  from 3 have sx: "solid x" by simp
  from 3 have r: "split_scan [] (join '' '' (y # ys)) = y # ys" by simp
  from sx have "split_scan [] (x @ CHR '' '' # join '' '' (y # ys)) =
                split_scan ([] @ x) (CHR '' '' # join '' '' (y # ys))"
    by (intro split_scan_word) (simp add: solid_def)
  with sx r show ?case by (simp add: isspace_space solid_def)
qed

lemma split_words_solid: "\<forall>w \<in> set (split t). solid w"
  using split_scan_solid [of "[]" _ t] by (auto simp: split_def)

lemma normalize_snippet_words: "normalize_snippet t = take 500 (join '' '' (split t))"
  by (simp add: normalize_snippet_def split_strip)

lemma normalize_snippet_shape:
  "length (normalize_snippet t) \<le> 500"
  "single_spaced (normalize_snippet t)"
  "length (join '' '' (split t)) \<le> 500 \<Longrightarrow> strip (normalize_snippet t) = normalize_snippet t"
  "length (join '' '' (split t)) \<le> 500 \<Longrightarrow> split (normalize_snippet t) = split t"
proof -
  have j: "joined_ok (join '' '' (split t))"
    by (rule join_solid_ok) (rule split_words_solid)
  show "length (normalize_snippet t) \<le> 500" by (simp add: normalize_snippet_words)
  show "single_spaced (normalize_snippet t)"
    unfolding normalize_snippet_words using j by (rule joined_ok_take_single_spaced)
  assume "length (join '' '' (split t)) \<le> 500"
  then have e: "normalize_snippet t = join '' '' (split t)" by (simp add: normalize_snippet_words)
  from j show "strip (normalize_snippet t) = normalize_snippet t"
    unfolding e by (rule joined_ok_strip)
  show "split (normalize_snippet t) = split t"
    unfolding e using split_join_solid [OF split_words_solid, of t] by (simp add: split_def)
qed

lemma fuse_evidence_mset:
  "mset (evidence (fuse docs webs)) =
     mset (first_per_key (map doc_citation docs @ map web_citation webs))"
  by (simp add: fuse_evidence)

subsection \<open>Claims about \<open>fuse\<close>\<close>

text \<open>
  C3. \<open>fuse\<close> walks the document candidates, then the web candidates, and keeps of
  every deduplication key only the first candidate: the evidence holds exactly the
  citations of \<open>first_per_key\<close> of documents followed by web hits, each one candidate
  unchanged (nothing is merged or aggregated), so no key occurs twice. The key is the
  first 200 characters of the citation's claim, and the claim is the normalized snippet:
  the words of the raw text joined by single spaces and cut at 500 characters, hence
  free of whitespace runs, of whitespace other than the space and of leading whitespace,
  and, when nothing is cut, also of trailing whitespace and with the words of the raw
  text. Hence a web hit whose key equals a document hit's key, in particular one whose
  snippet has the same words as the document's, is absent, while a citation with that
  key is present and is a document citation.
\<close>

theorem fuse_first_seen_per_key:
  "mset (evidence (fuse docs webs)) =
     mset (first_per_key (map doc_citation docs @ map web_citation webs)) \<and>
   distinct (map dedup_key (evidence (fuse docs webs))) \<and>
   (\<forall>d \<in> set docs. \<forall>w \<in> set webs.
      dedup_key (web_citation w) = dedup_key (doc_citation d) \<longrightarrow>
        web_citation w \<notin> set (evidence (fuse docs webs)) \<and>
        (\<exists>c \<in> set (evidence (fuse docs webs)). dedup_key c = dedup_key (doc_citation d)) \<and>
        (\<forall>c \<in> set (evidence (fuse docs webs)).
           dedup_key c = dedup_key (doc_citation d) \<longrightarrow> c \<in> doc_citation ` set docs)) \<and>
   (\<forall>d \<in> set docs. \<forall>w \<in> set webs.
      split (doc_raw d) = split (web_raw w) \<longrightarrow>
        web_citation w \<notin> set (evidence (fuse docs webs))) \<and>
   (\<forall>d \<in> set docs. claim (doc_citation d) = normalize_snippet (doc_raw d) \<and>
      dedup_key (doc_citation d) = take 200 (normalize_snippet (doc_raw d))) \<and>
   (\<forall>w \<in> set webs. claim (web_citation w) = normalize_snippet (web_raw w) \<and>
      dedup_key (web_citation w) = take 200 (normalize_snippet (web_raw w))) \<and>
   (\<forall>c \<in> set (evidence (fuse docs webs)).
      length (claim c) \<le> 500 \<and> single_spaced (claim c)) \<and>
   (\<forall>t. normalize_snippet t = take 500 (join '' '' (split t)) \<and>
      length (normalize_snippet t) \<le> 500 \<and>
      single_spaced (normalize_snippet t) \<and>
      (length (join '' '' (split t)) \<le> 500 \<longrightarrow>
         strip (normalize_snippet t) = normalize_snippet t \<and>
         split (normalize_snippet t) = split t))"
proof -
  have dropped: "web_citation w \<notin> set (evidence (fuse docs webs))"
    if d: "d \<in> set docs" and k: "dedup_key (web_citation w) = dedup_key (doc_citation d)"
    for d w
  proof
    from d have kd: "dedup_key (doc_citation d) \<in> dedup_key ` doc_citation ` set docs" by blast
    assume "web_citation w \<in> set (evidence (fuse docs webs))"
    from evidence_doc_key [OF this] k kd have "web_citation w \<in> doc_citation ` set docs" by simp
    then obtain d' where "web_citation w = doc_citation d'" by blast
    then have "source_type (web_citation w) = source_type (doc_citation d')" by simp
    then show False by (simp add: doc_citation_fields web_citation_fields)
  qed
  have keys: "dedup_key (doc_citation d) = take 200 (normalize_snippet (doc_raw d))"
    "dedup_key (web_citation w) = take 200 (normalize_snippet (web_raw w))" for d w
    by (simp_all add: dedup_key_def doc_citation_fields web_citation_fields)
  have c1: "mset (evidence (fuse docs webs)) =
     mset (first_per_key (map doc_citation docs @ map web_citation webs))"
    by (rule fuse_evidence_mset)
  have c2: "distinct (map dedup_key (evidence (fuse docs webs)))"
    by (rule evidence_keys_distinct)
  have c3: "\<forall>d \<in> set docs. \<forall>w \<in> set webs.
      dedup_key (web_citation w) = dedup_key (doc_citation d) \<longrightarrow>
        web_citation w \<notin> set (evidence (fuse docs webs)) \<and>
        (\<exists>c \<in> set (evidence (fuse docs webs)). dedup_key c = dedup_key (doc_citation d)) \<and>
        (\<forall>c \<in> set (evidence (fuse docs webs)).
           dedup_key c = dedup_key (doc_citation d) \<longrightarrow> c \<in> doc_citation ` set docs)"
  proof (intro ballI impI conjI)
    fix d w
    assume d: "d \<in> set docs"
      and k: "dedup_key (web_citation w) = dedup_key (doc_citation d)"
    from dropped [OF d k] show "web_citation w \<notin> set (evidence (fuse docs webs))" .
    have "dedup_key (doc_citation d) \<in>
          dedup_key ` set (first_per_key (map doc_citation docs @ map web_citation webs))"
      using d by (simp add: first_per_key_keys image_Un)
    then show "\<exists>c \<in> set (evidence (fuse docs webs)). dedup_key c = dedup_key (doc_citation d)"
      by (auto simp: set_evidence)
  next
    fix d w c
    assume d: "d \<in> set docs" and c: "c \<in> set (evidence (fuse docs webs))"
      and "dedup_key c = dedup_key (doc_citation d)"
    then have "dedup_key c \<in> dedup_key ` doc_citation ` set docs" by blast
    from evidence_doc_key [OF c this] show "c \<in> doc_citation ` set docs" .
  qed
  have c4: "\<forall>d \<in> set docs. \<forall>w \<in> set webs.
      split (doc_raw d) = split (web_raw w) \<longrightarrow>
        web_citation w \<notin> set (evidence (fuse docs webs))"
  proof (intro ballI impI)
    fix d w
    assume d: "d \<in> set docs" and e: "split (doc_raw d) = split (web_raw w)"
    from e have "normalize_snippet (doc_raw d) = normalize_snippet (web_raw w)"
      by (simp add: normalize_snippet_words)
    then have "dedup_key (web_citation w) = dedup_key (doc_citation d)"
      by (simp add: keys)
    from dropped [OF d this] show "web_citation w \<notin> set (evidence (fuse docs webs))" .
  qed
  have c5: "\<forall>d \<in> set docs. claim (doc_citation d) = normalize_snippet (doc_raw d) \<and>
      dedup_key (doc_citation d) = take 200 (normalize_snippet (doc_raw d))"
    by (simp add: keys doc_citation_fields)
  have c6: "\<forall>w \<in> set webs. claim (web_citation w) = normalize_snippet (web_raw w) \<and>
      dedup_key (web_citation w) = take 200 (normalize_snippet (web_raw w))"
    by (simp add: keys web_citation_fields)
  have c7: "\<forall>c \<in> set (evidence (fuse docs webs)).
      length (claim c) \<le> 500 \<and> single_spaced (claim c)"
  proof
    fix c
    assume "c \<in> set (evidence (fuse docs webs))"
    from evidence_origin [OF this] obtain t where "claim c = normalize_snippet t"
      by (auto simp: doc_citation_fields web_citation_fields)
    then show "length (claim c) \<le> 500 \<and> single_spaced (claim c)"
      by (simp add: normalize_snippet_shape)
  qed
  have c8: "\<forall>t. normalize_snippet t = take 500 (join '' '' (split t)) \<and>
      length (normalize_snippet t) \<le> 500 \<and>
      single_spaced (normalize_snippet t) \<and>
      (length (join '' '' (split t)) \<le> 500 \<longrightarrow>
         strip (normalize_snippet t) = normalize_snippet t \<and>
         split (normalize_snippet t) = split t)"
    using normalize_snippet_words normalize_snippet_shape by blast
  from c1 c2 c3 c4 c5 c6 c7 c8 show ?thesis by (intro conjI)
qed

theorem fuse_first_seen_per_key_witness:
  "normalize_snippet (doc_raw sample_doc_1) = ''Alpha beta'' \<and>
   split (doc_raw sample_doc_1) = split (web_raw sample_web) \<and>
   dedup_key (web_citation sample_web) = dedup_key (doc_citation sample_doc_1) \<and>
   web_citation sample_web \<notin> set (evidence (fuse [sample_doc_1, sample_doc_2] [sample_web])) \<and>
   map claim (evidence (fuse [sample_doc_1, sample_doc_2] [sample_web])) =
     [''Alpha beta'', ''Gamma''] \<and>
   map source_type (evidence (fuse [sample_doc_1, sample_doc_2] [sample_web])) =
     [''document'', ''document'']"
proof -
  have n: "normalize_snippet (doc_raw sample_doc_1) = ''Alpha beta''"
    by code_simp
  have w: "split (doc_raw sample_doc_1) = split (web_raw sample_web)"
    by code_simp
  have k: "dedup_key (web_citation sample_web) = dedup_key (doc_citation sample_doc_1)"
    by code_simp
  have c: "map claim (evidence (fuse [sample_doc_1, sample_doc_2] [sample_web])) =
     [''Alpha beta'', ''Gamma'']"
    by code_simp
  have s: "map source_type (evidence (fuse [sample_doc_1, sample_doc_2] [sample_web])) =
     [''document'', ''document'']"
    by code_simp
  have "web_citation sample_web \<notin> set (evidence (fuse [sample_doc_1, sample_doc_2] [sample_web]))"
    using w fuse_first_seen_per_key [of "[sample_doc_1, sample_doc_2]" "[sample_web]",
        THEN conjunct2, THEN conjunct2, THEN conjunct2, THEN conjunct1, rule_format,
        of sample_doc_1 sample_web]
    by simp
  with n w k c s show ?thesis by (intro conjI)
qed

text \<open>
  C5, as stated: every confidence lies in \<open>[0,1]\<close> whatever numbers the hits carry.
  The code bounds the product from above only (\<open>min(1.0, ...)\<close>); a document hit
  with score \<open>-1\<close> gets the confidence \<open>-1.2\<close>.
\<close>

theorem fuse_negative_confidence:
  "map confidence (evidence (fuse [sample_doc_1 \<lparr> doc_score := Some (- 1) \<rparr>] []))
     = [- (12 / 10)] \<and>
   \<not> (\<forall>c \<in> set (evidence (fuse [sample_doc_1 \<lparr> doc_score := Some (- 1) \<rparr>] [])).
         0 \<le> confidence c \<and> confidence c \<le> 1)"
proof -
  have "evidence (fuse [sample_doc_1 \<lparr> doc_score := Some (- 1) \<rparr>] []) =
          [doc_citation (sample_doc_1 \<lparr> doc_score := Some (- 1) \<rparr>)]"
    by (simp add: fuse_evidence)
  moreover have "confidence (doc_citation (sample_doc_1 \<lparr> doc_score := Some (- 1) \<rparr>)) = - (12 / 10)"
    by (simp add: doc_citation_fields doc_raw_score_def)
  ultimately show ?thesis by simp
qed

text \<open>
  C5, amended. Every confidence in the evidence is at most 1; it is also at least 0,
  hence in \<open>[0,1]\<close>, when no hit carries a negative score or confidence.
\<close>

theorem fuse_confidence_bounds:
  "(\<forall>c \<in> set (evidence (fuse docs webs)). confidence c \<le> 1) \<and>
   ((\<forall>d \<in> set docs. \<forall>x. doc_score d = Some x \<longrightarrow> 0 \<le> x) \<and>
    (\<forall>w \<in> set webs. \<forall>x. web_confidence w = Some x \<longrightarrow> 0 \<le> x) \<longrightarrow>
    (\<forall>c \<in> set (evidence (fuse docs webs)). 0 \<le> confidence c \<and> confidence c \<le> 1))"
proof -
  have upper: "confidence c \<le> 1" if "c \<in> set (evidence (fuse docs webs))" for c
    using evidence_origin [OF that] by (auto simp: doc_citation_fields web_citation_fields)
  have lower: "0 \<le> confidence c"
    if c: "c \<in> set (evidence (fuse docs webs))"
      and dn: "\<forall>d \<in> set docs. \<forall>x. doc_score d = Some x \<longrightarrow> 0 \<le> x"
      and wn: "\<forall>w \<in> set webs. \<forall>x. web_confidence w = Some x \<longrightarrow> 0 \<le> x" for c
    using evidence_origin [OF c]
  proof
    assume "c \<in> doc_citation ` set docs"
    then obtain d where d: "d \<in> set docs" "c = doc_citation d" by blast
    with dn have "0 \<le> doc_raw_score d"
      by (auto simp: doc_raw_score_def split: option.splits)
    with d show ?thesis by (simp add: doc_citation_fields)
  next
    assume "c \<in> web_citation ` set webs"
    then obtain w where w: "w \<in> set webs" "c = web_citation w" by blast
    with wn have "0 \<le> web_raw_score w"
      by (auto simp: web_raw_score_def split: option.splits)
    with w show ?thesis by (simp add: web_citation_fields)
  qed
  from upper lower show ?thesis by blast
qed

theorem fuse_confidence_bounds_witness:
  "map doc_score [sample_doc_1, sample_doc_2] = [Some (9 / 10), None] \<and>
   map web_confidence [sample_web] = [Some (8 / 10)] \<and>
   list_all (\<lambda>c. 0 \<le> confidence c \<and> confidence c \<le> 1)
     (evidence (fuse [sample_doc_1, sample_doc_2] [sample_web]))"
proof -
  have h: "(\<forall>d \<in> set [sample_doc_1, sample_doc_2]. \<forall>x. doc_score d = Some x \<longrightarrow> 0 \<le> x) \<and>
   (\<forall>w \<in> set [sample_web]. \<forall>x. web_confidence w = Some x \<longrightarrow> 0 \<le> x)"
    by (simp add: sample_doc_1_def sample_doc_2_def sample_web_def)
  from fuse_confidence_bounds [of "[sample_doc_1, sample_doc_2]" "[sample_web]",
      THEN conjunct2, rule_format, OF h]
  have "list_all (\<lambda>c. 0 \<le> confidence c \<and> confidence c \<le> 1)
     (evidence (fuse [sample_doc_1, sample_doc_2] [sample_web]))"
    unfolding list_all_iff by blast
  then show ?thesis by (simp add: sample_doc_1_def sample_doc_2_def sample_web_def)
qed

lemma candidate_confidence_values:
  "doc_score d = None \<Longrightarrow> confidence (doc_citation d) = min 1 (6 / 10 * (12 / 10))"
  "doc_score d = Some x \<Longrightarrow> x \<noteq> 0 \<Longrightarrow> confidence (doc_citation d) = min 1 (x * (12 / 10))"
  "doc_score d = Some 0 \<Longrightarrow> confidence (doc_citation d) = min 1 (6 / 10 * (12 / 10))"
  "web_confidence w = None \<Longrightarrow> confidence (web_citation w) = min 1 (5 / 10 * 1)"
  "web_confidence w = Some y \<Longrightarrow> confidence (web_citation w) = min 1 (y * 1)"
  "internet source_priority < document source_priority"
  by (simp_all add: doc_citation_fields web_citation_fields doc_raw_score_def
        web_raw_score_def source_priority_def)

text \<open>
  C8. The claim: a document hit's confidence is \<open>min(1.0, score * 1.2)\<close> whenever the
  score is present, and \<open>min(1.0, 0.6 * 1.2)\<close> only when it is absent. Line 61 reads
  \<open>d.get('score') or 0.6\<close>, so a score that is present and equal to \<open>0\<close> is replaced
  by \<open>0.6\<close> as well: the hit below, with score \<open>0\<close>, gets the confidence \<open>0.72\<close>
  where the claim gives \<open>0\<close>. The web loop (\<open>w.get('confidence', 0.5)\<close>) keeps a
  zero.
\<close>

theorem fuse_zero_score_replaced:
  "map confidence (evidence (fuse [sample_doc_2 \<lparr> doc_score := Some 0 \<rparr>] [])) = [72 / 100] \<and>
   min 1 (0 * document source_priority) = 0 \<and>
   map confidence (evidence (fuse [] [sample_web \<lparr> web_confidence := Some 0 \<rparr>])) = [0]"
proof -
  have "evidence (fuse [sample_doc_2 \<lparr> doc_score := Some 0 \<rparr>] []) =
          [doc_citation (sample_doc_2 \<lparr> doc_score := Some 0 \<rparr>)]"
    by (simp add: fuse_evidence)
  moreover have "evidence (fuse [] [sample_web \<lparr> web_confidence := Some 0 \<rparr>]) =
          [web_citation (sample_web \<lparr> web_confidence := Some 0 \<rparr>)]"
    by (simp add: fuse_evidence)
  ultimately show ?thesis
    by (simp add: doc_citation_fields web_citation_fields doc_raw_score_def web_raw_score_def)
qed

text \<open>
  C9, as stated: a web hit's citation has the source type \<open>web\<close>. The code labels it
  \<open>internet\<close> (line 82), the label the web agent uses as well.
\<close>

theorem fuse_web_source_type_not_web:
  "map source_type (evidence (fuse [] [sample_web])) = [''internet''] \<and>
   \<not> (\<forall>c \<in> set (evidence (fuse [] [sample_web])).
         source_type c = ''document'' \<or> source_type c = ''web'')"
proof -
  have "evidence (fuse [] [sample_web]) = [web_citation sample_web]"
    by (simp add: fuse_evidence)
  then show ?thesis by (simp add: web_citation_fields)
qed

text \<open>
  C9, amended. Every citation produced by \<open>fuse\<close> has a source type among
  \<open>document\<close> and \<open>internet\<close>: it is \<open>document\<close> for the citation of a document hit
  and \<open>internet\<close> for the citation of a web hit.
\<close>

theorem fuse_source_types:
  "(\<forall>c \<in> set (evidence (fuse docs webs)).
      (c \<in> doc_citation ` set docs \<and> source_type c = ''document'') \<or>
      (c \<in> web_citation ` set webs \<and> source_type c = ''internet'')) \<and>
   map source_type (evidence (fuse [d] [])) = [''document''] \<and>
   map source_type (evidence (fuse [] [w])) = [''internet'']"
proof (intro conjI ballI)
  fix c
  assume "c \<in> set (evidence (fuse docs webs))"
  from evidence_origin [OF this]
  show "(c \<in> doc_citation ` set docs \<and> source_type c = ''document'') \<or>
      (c \<in> web_citation ` set webs \<and> source_type c = ''internet'')"
    by (auto simp: doc_citation_fields web_citation_fields)
next
  show "map source_type (evidence (fuse [d] [])) = [''document'']"
    by (simp add: fuse_evidence doc_citation_fields)
  show "map source_type (evidence (fuse [] [w])) = [''internet'']"
    by (simp add: fuse_evidence web_citation_fields)
qed

theorem fuse_source_types_witness:
  "map source_type (evidence (fuse [sample_doc_1, sample_doc_2] [sample_web])) =
     [''document'', ''document''] \<and>
   map source_type (evidence (fuse [sample_doc_2] [sample_web])) = [''internet'', ''document''] \<and>
   list_all (\<lambda>c. source_type c = ''document'' \<or> source_type c = ''internet'')
     (evidence (fuse [sample_doc_2] [sample_web]))"
proof -
  have a: "map source_type (evidence (fuse [sample_doc_1, sample_doc_2] [sample_web])) =
     [''document'', ''document'']"
    by code_simp
  have b: "map source_type (evidence (fuse [sample_doc_2] [sample_web])) =
     [''internet'', ''document'']"
    by code_simp
  from fuse_source_types [of "[sample_doc_2]" "[sample_web]", THEN conjunct1]
  have "list_all (\<lambda>c. source_type c = ''document'' \<or> source_type c = ''internet'')
     (evidence (fuse [sample_doc_2] [sample_web]))"
    unfolding list_all_iff by blast
  with a b show ?thesis by (intro conjI)
qed

section \<open>Properties of the answer synthesizer\<close>

lemma enumerate1_map:
  "map (\<lambda>(i, c). f i c) (enumerate1 xs) = map (\<lambda>i. f (Suc i) (xs ! i)) [0..<length xs]"
  by (rule nth_equalityI) (simp_all add: enumerate1_def nth_append del: upt_Suc)

lemma shown_source_eq:
  "str_opt (py_or (py_or (cit_source c) (url c)) (Some ''unknown'')) = shown_source c"
  by (simp add: shown_source_def py_or_def truthy_def str_opt_def split: option.splits)

lemma format_citations_lines:
  "format_citations cits =
     join [CHR 0x0A] (map (\<lambda>i. source_line (Suc i) (cits ! i)) [0..<length cits])"
  unfolding format_citations_def Let_def shown_source_eq enumerate1_map source_line_def
  by (rule refl)

lemma join_nonempty: "x \<in> set xs \<Longrightarrow> x \<noteq> [] \<Longrightarrow> join sep xs \<noteq> []"
  by (induction sep xs rule: join.induct) auto

lemma join_empty_iff: "join '' '' xs = [] \<longleftrightarrow> xs = [] \<or> xs = [[]]"
  by (induction "'' ''" xs rule: join.induct) auto

text \<open>
  C4, as stated: when the chat call raises, the answer is a non-empty string. With no
  evidence there is no claim to join, and the fallback answer is the empty string.
\<close>

theorem generate_answer_fallback_empty:
  "generate_answer failing_chat (fuse [] []) ''What is new?'' =
     \<lparr> answer = [], citations = [], sources_text = [] \<rparr>"
  by code_simp

text \<open>
  C4, amended. When the chat call raises, \<open>generate_answer\<close> returns a result:
  the answer is the claims of the first at most three citations joined by single
  spaces (non-empty as soon as one of these claims is non-empty), the citations are
  the evidence unchanged, and \<open>sources_text\<close> has one line \<open>[index] source
  (sourceType)\<close> per citation, numbered from 1 and joined by newlines.
\<close>

theorem generate_answer_fallback:
  assumes "chat (answer_messages fused user_query) = Inl e"
  shows "generate_answer chat fused user_query =
           \<lparr> answer = join '' '' (map claim (take 3 (evidence fused))),
             citations = evidence fused,
             sources_text =
               join [CHR 0x0A] (map (\<lambda>i. source_line (Suc i) (evidence fused ! i))
                                  [0..<length (evidence fused)]) \<rparr> \<and>
         ((\<exists>c \<in> set (take 3 (evidence fused)). claim c \<noteq> []) \<longrightarrow>
            answer (generate_answer chat fused user_query) \<noteq> [])"
proof -
  have g: "generate_answer chat fused user_query =
           \<lparr> answer = join '' '' (map claim (take 3 (evidence fused))),
             citations = evidence fused,
             sources_text = format_citations (evidence fused) \<rparr>"
    using assms by (simp add: generate_answer_def Let_def)
  have "join '' '' (map claim (take 3 (evidence fused))) \<noteq> []"
    if "\<exists>c \<in> set (take 3 (evidence fused)). claim c \<noteq> []"
  proof -
    from that obtain c where "c \<in> set (take 3 (evidence fused))" "claim c \<noteq> []" by blast
    then have "claim c \<in> set (map claim (take 3 (evidence fused)))" by simp
    from join_nonempty [OF this \<open>claim c \<noteq> []\<close>] show ?thesis .
  qed
  with g show ?thesis by (simp add: format_citations_lines del: upt_Suc)
qed

theorem generate_answer_fallback_witness:
  "failing_chat (answer_messages (fuse [sample_doc_1, sample_doc_2] [sample_web]) ''What is new?'')
     = Inl ''connection refused'' \<and>
   generate_answer failing_chat (fuse [sample_doc_1, sample_doc_2] [sample_web]) ''What is new?'' =
     \<lparr> answer = ''Alpha beta Gamma'',
       citations = [doc_citation sample_doc_1, doc_citation sample_doc_2],
       sources_text = [CHR ''['', CHR ''1'', CHR '']''] @ '' a.txt (document)'' @ [CHR 0x0A]
                        @ [CHR ''['', CHR ''2'', CHR '']''] @ '' internal (document)'' \<rparr> \<and>
   answer (generate_answer failing_chat (fuse [sample_doc_1, sample_doc_2] [sample_web])
             ''What is new?'') \<noteq> []"
proof -
  let ?fused = "fuse [sample_doc_1, sample_doc_2] [sample_web]"
  have f: "failing_chat (answer_messages ?fused ''What is new?'') = Inl ''connection refused''"
    by (simp add: failing_chat_def)
  have r: "generate_answer failing_chat ?fused ''What is new?'' =
     \<lparr> answer = ''Alpha beta Gamma'',
       citations = [doc_citation sample_doc_1, doc_citation sample_doc_2],
       sources_text = [CHR ''['', CHR ''1'', CHR '']''] @ '' a.txt (document)'' @ [CHR 0x0A]
                        @ [CHR ''['', CHR ''2'', CHR '']''] @ '' internal (document)'' \<rparr>"
    by code_simp
  have c: "\<exists>c \<in> set (take 3 (evidence ?fused)). claim c \<noteq> []"
    by code_simp
  from generate_answer_fallback
         [of failing_chat ?fused "''What is new?''" "''connection refused''", OF f,
          THEN conjunct2, rule_format, OF c]
  have "answer (generate_answer failing_chat ?fused ''What is new?'') \<noteq> []" .
  with f r show ?thesis by (intro conjI)
qed

section \<open>Properties of the router\<close>

lemma decide_never_empty: "use_documents (decide q m) \<or> use_web (decide q m)"
  by (simp add: decide_def Let_def)

lemma decide_reason: "reason (decide q m) \<noteq> []"
  by (simp add: decide_def Let_def)

text \<open>
  C6, as stated: each of the four combinations of \<open>(use_documents, use_web)\<close>,
  \<open>(False, False)\<close> included, is returned for some query and metadata. No input
  gives \<open>(False, False)\<close>: without documents every branch sets \<open>use_web\<close>.
\<close>

theorem decide_never_both_false:
  "\<not> (\<exists>q m. \<not> use_documents (decide q m) \<and> \<not> use_web (decide q m))"
  using decide_never_empty by blast

text \<open>
  C6, amended. Exactly three combinations are outcomes of \<open>decide\<close>: documents only,
  both, and web only, each returned for some query and metadata; \<open>(False, False)\<close>
  is never returned; every decision carries a non-empty reason.
\<close>

theorem decide_outcomes:
  "(\<exists>q m. use_documents (decide q m) \<and> \<not> use_web (decide q m)) \<and>
   (\<exists>q m. use_documents (decide q m) \<and> use_web (decide q m)) \<and>
   (\<exists>q m. \<not> use_documents (decide q m) \<and> use_web (decide q m)) \<and>
   (\<forall>q m. use_documents (decide q m) \<or> use_web (decide q m)) \<and>
   (\<forall>q m. reason (decide q m) \<noteq> [])"
proof (intro conjI allI)
  have "decide ''Show our internal logistics report'' [''has_uploaded_docs'' \<mapsto> True] =
      \<lparr> use_documents = True, use_web = False, reason = ''Internal scope detected'' \<rparr>"
    by code_simp
  then have "use_documents (decide ''Show our internal logistics report''
                 [''has_uploaded_docs'' \<mapsto> True]) \<and>
             \<not> use_web (decide ''Show our internal logistics report''
                 [''has_uploaded_docs'' \<mapsto> True])"
    by simp
  then show "\<exists>q m. use_documents (decide q m) \<and> \<not> use_web (decide q m)" by blast
  have "decide ''Latest news'' [''has_uploaded_docs'' \<mapsto> True] =
      \<lparr> use_documents = True, use_web = True,
        reason = ''Combined: internal + recent/external'' \<rparr>"
    by code_simp
  then have "use_documents (decide ''Latest news'' [''has_uploaded_docs'' \<mapsto> True]) \<and>
             use_web (decide ''Latest news'' [''has_uploaded_docs'' \<mapsto> True])"
    by simp
  then show "\<exists>q m. use_documents (decide q m) \<and> use_web (decide q m)" by blast
  have "decide ''What are the latest supply chain trends in 2025?'' Map.empty =
      \<lparr> use_documents = False, use_web = True, reason = ''No docs, web search required'' \<rparr>"
    by code_simp
  then have "\<not> use_documents (decide ''What are the latest supply chain trends in 2025?''
                 Map.empty) \<and>
             use_web (decide ''What are the latest supply chain trends in 2025?'' Map.empty)"
    by simp
  then show "\<exists>q m. \<not> use_documents (decide q m) \<and> use_web (decide q m)" by blast
next
  fix q m
  show "use_documents (decide q m) \<or> use_web (decide q m)" by (rule decide_never_empty)
  show "reason (decide q m) \<noteq> []" by (rule decide_reason)
qed

end
